theory Spec2Isabelle
  imports Complex_Main
begin

section \<open>The geometric scattering embedding of karateclub\<close>

text \<open>
  A shallow embedding of \<^verbatim>\<open>karateclub/graph_embedding/geoscattering.py\<close> (class
  \<^verbatim>\<open>GeoScattering\<close>). Conventions:
  \<^item> a float is a \<open>real\<close>. The division \<^verbatim>\<open>1.0/graph.degree[node]\<close> is rounded to the
    nearest double, as IEEE 754 has it (\<open>round_double\<close> below). Every other operation
    is exact arithmetic. In the construction of the normalized operator of a graph
    without self-loops this loses nothing: a product with an entry 0 or 1 of the
    adjacency matrix, a sum with at most one term that is not zero, and the
    multiplication by 0.5 are exact in floating point as well;
  \<^item> a SciPy sparse matrix is the list of its rows, zeros written out (the storage
    scheme is not part of the model, the values are);
  \<^item> a Python exception is a value \<open>Inl e\<close> of the sum type \<open>error + 'a\<close>;
  \<^item> \<^verbatim>\<open>self\<close> is a record of the three attributes the class ever has; a method that
    does not read \<^verbatim>\<open>self\<close> is a function of its other arguments only;
  \<^item> the progress bar of \<^verbatim>\<open>tqdm\<close> and the \<^verbatim>\<open>print\<close> of the shape write to the
    terminal only and are left out.
\<close>

subsection \<open>Exceptions\<close>

text \<open>
  The module defines no exception class of its own. What can be raised is Python's
  \<^verbatim>\<open>ZeroDivisionError\<close> (by \<^verbatim>\<open>1.0/graph.degree[node]\<close>), NetworkX's \<^verbatim>\<open>NetworkXError\<close>
  (by \<^verbatim>\<open>nx.adjacency_matrix\<close> and by \<^verbatim>\<open>nx.eccentricity\<close>; the constructor argument
  records which message), and the built-in errors of indexing, attribute lookup and
  shape mismatch. \<open>InputShapeError\<close> is what the validation of the base class raises.
\<close>

datatype nx_message = NoNodes | NodeNotInGraph | NbunchNotANode | DuplicateNodes | NotConnected

datatype error =
    ZeroDivisionError
  | NetworkXError nx_message
  | KeyError
  | IndexError
  | ValueError
  | AttributeError
  | InputShapeError

abbreviation DegreeZeroError :: error where
  "DegreeZeroError \<equiv> ZeroDivisionError"

abbreviation DisconnectedGraphError :: error where
  "DisconnectedGraphError \<equiv> NetworkXError NotConnected"

subsection \<open>Python sequences\<close>

definition py_range :: "int \<Rightarrow> int \<Rightarrow> int list" where
  \<comment> \<open>\<^verbatim>\<open>range(a, b)\<close>: the integers \<open>a, a+1, ..., b-1\<close>; empty when \<open>b \<le> a\<close>.\<close>
  "py_range a b = [a..b - 1]"

definition py_index :: "'a list \<Rightarrow> int \<Rightarrow> error + 'a" where
  \<comment> \<open>\<^verbatim>\<open>xs[i]\<close> on a list: a negative index counts from the end.\<close>
  "py_index xs i =
     (if 0 \<le> i \<and> i < int (length xs) then Inr (xs ! nat i)
      else if i < 0 \<and> - int (length xs) \<le> i then Inr (xs ! nat (int (length xs) + i))
      else Inl IndexError)"

fun for_each :: "('a \<Rightarrow> error + 'b) \<Rightarrow> 'a list \<Rightarrow> error + 'b list" where
  \<comment> \<open>A list comprehension (or a loop that appends) whose body may raise: the first
      exception ends it.\<close>
  "for_each f [] = Inr []"
| "for_each f (x # xs) =
     (case f x of
        Inl e \<Rightarrow> Inl e
      | Inr y \<Rightarrow> (case for_each f xs of Inl e \<Rightarrow> Inl e | Inr ys \<Rightarrow> Inr (y # ys)))"

definition on_success :: "error + 'a \<Rightarrow> ('a \<Rightarrow> error + 'b) \<Rightarrow> error + 'b" where
  \<comment> \<open>Sequencing: an exception of the first computation skips the rest.\<close>
  "on_success r f = (case r of Inl e \<Rightarrow> Inl e | Inr a \<Rightarrow> f a)"

subsection \<open>Vectors and matrices\<close>

type_synonym vector = "real list"

type_synonym matrix = "real list list"

definition ncols :: "matrix \<Rightarrow> nat" where
  "ncols M = (case M of [] \<Rightarrow> 0 | r # _ \<Rightarrow> length r)"

definition sp_identity :: "nat \<Rightarrow> matrix" where
  \<comment> \<open>\<^verbatim>\<open>sparse.identity(n)\<close>\<close>
  "sp_identity n = map (\<lambda>i. map (\<lambda>j. if i = j then 1 else 0) [0..<n]) [0..<n]"

definition coo_diagonal :: "vector \<Rightarrow> matrix" where
  \<comment> \<open>\<^verbatim>\<open>sparse.coo_matrix((values, (index, index)), shape=(n, n))\<close> with
      \<^verbatim>\<open>index = arange(n)\<close>\<close>
  "coo_diagonal values =
     map (\<lambda>i. map (\<lambda>j. if i = j then values ! i else 0) [0..<length values])
       [0..<length values]"

definition sp_dot :: "matrix \<Rightarrow> matrix \<Rightarrow> matrix" where
  \<comment> \<open>\<^verbatim>\<open>A.dot(B)\<close> on two matrices: the matrix product. The source only multiplies two
      \<open>n \<times> n\<close> matrices built from the same graph.\<close>
  "sp_dot A B =
     map (\<lambda>row. map (\<lambda>j. (\<Sum>k\<leftarrow>[0..<length B]. row ! k * B ! k ! j)) [0..<ncols B]) A"

definition sp_add :: "matrix \<Rightarrow> matrix \<Rightarrow> matrix" where
  "sp_add A B = map2 (map2 (+)) A B"

definition sp_sub :: "matrix \<Rightarrow> matrix \<Rightarrow> matrix" where
  "sp_sub A B = map2 (map2 (-)) A B"

definition sp_scale :: "real \<Rightarrow> matrix \<Rightarrow> matrix" where
  "sp_scale c A = map (map ((*) c)) A"

definition sp_power :: "matrix \<Rightarrow> nat \<Rightarrow> matrix" where
  \<comment> \<open>\<^verbatim>\<open>A.power(k)\<close> of \<^verbatim>\<open>scipy.sparse\<close>: every entry is raised to the power \<open>k\<close>
      (the method is documented as the element-wise power; for \<open>k \<ge> 1\<close> an entry that
      is not stored stays zero).\<close>
  "sp_power A k = map (map (\<lambda>a. a ^ k)) A"

definition matvec :: "matrix \<Rightarrow> vector \<Rightarrow> vector" where
  \<comment> \<open>The product of a matrix and a vector of matching length.\<close>
  "matvec M x = map (\<lambda>row. (\<Sum>(a, b)\<leftarrow>zip row x. a * b)) M"

definition dot_vector :: "matrix \<Rightarrow> vector \<Rightarrow> error + vector" where
  \<comment> \<open>\<^verbatim>\<open>psi.dot(x)\<close> on a matrix and a one-dimensional array; SciPy raises
      \<^verbatim>\<open>ValueError\<close> when the number of columns is not the length of \<open>x\<close>.\<close>
  "dot_vector M x =
     (if \<forall>row\<in>set M. length row = length x then Inr (matvec M x) else Inl ValueError)"

text \<open>
  The matrix power in the mathematical sense, by repeated multiplication. The source
  never computes it; it is what the specification writes as \<open>A_hat^(2^k)\<close>.
\<close>

fun matrix_power :: "matrix \<Rightarrow> nat \<Rightarrow> matrix" where
  "matrix_power A 0 = sp_identity (length A)"
| "matrix_power A (Suc k) = sp_dot (matrix_power A k) A"

fun matrix_sum :: "matrix list \<Rightarrow> matrix" where
  "matrix_sum [] = []"
| "matrix_sum (M # Ms) = foldl sp_add M Ms"

subsection \<open>The estimator object\<close>

datatype ndarray = Scalar real | Array "ndarray list"

fun shape :: "ndarray \<Rightarrow> nat list" where
  "shape (Scalar a) = []"
| "shape (Array []) = [0]"
| "shape (Array (x # xs)) = Suc (length xs) # shape x"

fun entries :: "ndarray \<Rightarrow> ndarray list" where
  "entries (Scalar a) = []"
| "entries (Array xs) = xs"

fun scalars :: "ndarray \<Rightarrow> real list" where
  \<comment> \<open>The numbers of an array in row-major order (\<^verbatim>\<open>ravel\<close>).\<close>
  "scalars (Scalar a) = [a]"
| "scalars (Array xs) = concat (map scalars xs)"

record estimator =
  order :: int
  moments :: int
  embedding :: "ndarray list option"

definition init :: "int \<Rightarrow> int \<Rightarrow> estimator" where
  \<comment> \<open>\<^verbatim>\<open>__init__(self, order=4, moments=4)\<close>: \<^verbatim>\<open>_embedding\<close> is not set.\<close>
  "init order' moments' = \<lparr>order = order', moments = moments', embedding = None\<rparr>"

subsection \<open>Graphs, as NetworkX holds them\<close>

text \<open>
  An undirected \<^verbatim>\<open>nx.Graph\<close> without edge attributes is its adjacency dictionary
  \<^verbatim>\<open>G.adj\<close>: every node with the list of its neighbours, in insertion order. A self-loop
  lists the node among its own neighbours.
\<close>

type_synonym node = nat

type_synonym graph = "(node \<times> node list) list"

definition nodes :: "graph \<Rightarrow> node list" where
  "nodes g = map fst g"

definition number_of_nodes :: "graph \<Rightarrow> nat" where
  "number_of_nodes g = length g"

definition neighbors :: "graph \<Rightarrow> node \<Rightarrow> node list" where
  "neighbors g v = (case map_of g v of None \<Rightarrow> [] | Some ns \<Rightarrow> ns)"

definition nx_graph :: "graph \<Rightarrow> bool" where
  \<comment> \<open>What NetworkX maintains for every undirected graph: keys are unique, a neighbour
      is a node, and adjacency is symmetric.\<close>
  "nx_graph g \<longleftrightarrow>
     distinct (nodes g) \<and>
     (\<forall>v\<in>set (nodes g). distinct (neighbors g v) \<and>
        (\<forall>w\<in>set (neighbors g v). w \<in> set (nodes g) \<and> v \<in> set (neighbors g w)))"

definition contiguous :: "graph \<Rightarrow> bool" where
  \<comment> \<open>The node labels are \<open>0, ..., n-1\<close>.\<close>
  "contiguous g \<longleftrightarrow> set (nodes g) = set [0..<number_of_nodes g]"

definition simple :: "graph \<Rightarrow> bool" where
  \<comment> \<open>No self-loop.\<close>
  "simple g \<longleftrightarrow> (\<forall>v\<in>set (nodes g). v \<notin> set (neighbors g v))"

definition degree_lookup :: "graph \<Rightarrow> node \<Rightarrow> error + nat" where
  \<comment> \<open>\<^verbatim>\<open>graph.degree[node]\<close>: \<^verbatim>\<open>KeyError\<close> for a node that is not in the graph; a
      self-loop counts twice.\<close>
  "degree_lookup g v =
     (case map_of g v of
        None \<Rightarrow> Inl KeyError
      | Some ns \<Rightarrow> Inr (length ns + (if v \<in> set ns then 1 else 0)))"

definition degree_call :: "graph \<Rightarrow> node \<Rightarrow> error + nat" where
  \<comment> \<open>\<^verbatim>\<open>graph.degree(node)\<close>: for a node that is not in the graph the call builds a
      view over \<^verbatim>\<open>nbunch_iter(node)\<close>, which raises \<^verbatim>\<open>NetworkXError\<close> (the node is
      neither a node of the graph nor a sequence of nodes); a self-loop counts twice.\<close>
  "degree_call g v =
     (case map_of g v of
        None \<Rightarrow> Inl (NetworkXError NbunchNotANode)
      | Some ns \<Rightarrow> Inr (length ns + (if v \<in> set ns then 1 else 0)))"

definition adjacency_matrix :: "graph \<Rightarrow> node list \<Rightarrow> error + matrix" where
  \<comment> \<open>\<^verbatim>\<open>nx.adjacency_matrix(graph, nodelist=...)\<close>: rows and columns follow the node
      list; an edge is a 1, a self-loop a single 1 on the diagonal.\<close>
  "adjacency_matrix g nodelist =
     (if number_of_nodes g = 0 \<or> nodelist = [] then Inl (NetworkXError NoNodes)
      else if \<exists>v\<in>set nodelist. v \<notin> set (nodes g) then Inl (NetworkXError NodeNotInGraph)
      else if \<not> distinct nodelist then Inl (NetworkXError DuplicateNodes)
      else Inr (map (\<lambda>u. map (\<lambda>v. if v \<in> set (neighbors g u) then 1 else 0) nodelist)
                  nodelist))"

subsubsection \<open>Shortest path lengths and eccentricity\<close>

definition next_level :: "graph \<Rightarrow> node list \<Rightarrow> node list \<Rightarrow> node list" where
  \<comment> \<open>One sweep of the breadth-first search: the neighbours of this level that have not
      been seen, each once, in the order they are met.\<close>
  "next_level g thislevel seen =
     fold (\<lambda>v found.
             fold (\<lambda>w found. if w \<in> set seen \<or> w \<in> set found then found else found @ [w])
               (neighbors g v) found)
       thislevel []"

definition mentioned :: "graph \<Rightarrow> node set" where
  "mentioned g = (\<Union>ns\<in>snd ` set g. set ns)"

function (sequential) bfs_levels ::
  "graph \<Rightarrow> nat \<Rightarrow> node list \<Rightarrow> node list \<Rightarrow> (node \<times> nat) list" where
  "bfs_levels g level thislevel seen =
     (let found = next_level g thislevel seen
      in if found = [] then []
         else map (\<lambda>w. (w, level + 1)) found @ bfs_levels g (level + 1) found (seen @ found))"
  by pat_completeness auto

lemma visit_neighbours_set:
  "set (fold (\<lambda>w found. if w \<in> set seen \<or> w \<in> set found then found else found @ [w]) ws found)
     = set found \<union> (set ws - set seen)"
  by (induction ws arbitrary: found) auto

lemma visit_neighbours_distinct:
  "distinct found \<Longrightarrow>
   distinct (fold (\<lambda>w found. if w \<in> set seen \<or> w \<in> set found then found else found @ [w]) ws found)"
  by (induction ws arbitrary: found) auto

lemma sweep_set:
  "set (fold (\<lambda>v found.
               fold (\<lambda>w found. if w \<in> set seen \<or> w \<in> set found then found else found @ [w])
                 (neighbors g v) found)
          vs found)
     = set found \<union> ((\<Union>v\<in>set vs. set (neighbors g v)) - set seen)"
  by (induction vs arbitrary: found) (auto simp: visit_neighbours_set)

lemma sweep_distinct:
  "distinct found \<Longrightarrow>
   distinct (fold (\<lambda>v found.
               fold (\<lambda>w found. if w \<in> set seen \<or> w \<in> set found then found else found @ [w])
                 (neighbors g v) found)
          vs found)"
  by (induction vs arbitrary: found) (auto simp: visit_neighbours_distinct)

lemma set_next_level:
  "set (next_level g thislevel seen) = (\<Union>v\<in>set thislevel. set (neighbors g v)) - set seen"
  by (simp add: next_level_def sweep_set)

lemma distinct_next_level: "distinct (next_level g thislevel seen)"
  by (simp add: next_level_def sweep_distinct)

lemma neighbors_mentioned: "set (neighbors g v) \<subseteq> mentioned g"
proof (cases "map_of g v")
  case None
  then show ?thesis by (simp add: neighbors_def)
next
  case (Some ns)
  then have "(v, ns) \<in> set g" by (rule map_of_SomeD)
  then have "ns \<in> snd ` set g" by force
  with Some show ?thesis by (auto simp: neighbors_def mentioned_def)
qed

lemma finite_mentioned: "finite (mentioned g)"
  by (simp add: mentioned_def)

lemma next_level_unseen: "set (next_level g thislevel seen) \<subseteq> mentioned g - set seen"
  using neighbors_mentioned by (fastforce simp: set_next_level)

termination bfs_levels
proof (relation "measure (\<lambda>(g, level, thislevel, seen). card (mentioned g - set seen))")
  show "wf (measure (\<lambda>(g, level, thislevel, seen). card (mentioned g - set seen)))"
    by simp
next
  fix g :: graph and level :: nat and thislevel seen found :: "node list"
  assume found: "found = next_level g thislevel seen" and ne: "found \<noteq> []"
  from ne obtain w where w: "w \<in> set found" by (cases found) auto
  from found have sub: "set found \<subseteq> mentioned g - set seen"
    by (simp add: next_level_unseen)
  have "mentioned g - set (seen @ found) \<subset> mentioned g - set seen"
    using w sub by auto
  then have "card (mentioned g - set (seen @ found)) < card (mentioned g - set seen)"
    by (intro psubset_card_mono) (simp_all add: finite_mentioned)
  then show "((g, level + 1, found, seen @ found), (g, level, thislevel, seen))
      \<in> measure (\<lambda>(g, level, thislevel, seen). card (mentioned g - set seen))"
    by simp
qed

declare bfs_levels.simps [simp del]

definition single_source_shortest_path_length :: "graph \<Rightarrow> node \<Rightarrow> (node \<times> nat) list" where
  \<comment> \<open>The dictionary of the nodes reached from \<open>source\<close>, each with its distance.\<close>
  "single_source_shortest_path_length g source =
     (source, 0) # bfs_levels g 0 [source] [source]"

definition eccentricity :: "graph \<Rightarrow> node \<Rightarrow> error + nat" where
  \<comment> \<open>\<^verbatim>\<open>nx.eccentricity(graph, node)\<close>: raises when the search from the node does not
      reach every node, otherwise the largest distance.\<close>
  "eccentricity g v =
     (if v \<notin> set (nodes g) then Inl (NetworkXError NodeNotInGraph)
      else let lengths = single_source_shortest_path_length g v
           in if length lengths \<noteq> number_of_nodes g then Inl (NetworkXError NotConnected)
              else Inr (fold max (map snd lengths) 0))"

subsubsection \<open>Clustering coefficient\<close>

definition clustering :: "graph \<Rightarrow> node \<Rightarrow> error + real" where
  \<comment> \<open>\<^verbatim>\<open>nx.clustering(graph, node)\<close> on an unweighted undirected graph: with \<open>vs\<close> the
      neighbours other than the node itself, \<open>t\<close> counts the ordered pairs of adjacent
      members of \<open>vs\<close>, and the coefficient is \<open>t / (d (d - 1))\<close>, or 0 when \<open>t = 0\<close>.\<close>
  "clustering g v =
     (if v \<notin> set (nodes g) then Inl (NetworkXError NodeNotInGraph)
      else let vs = filter (\<lambda>w. w \<noteq> v) (neighbors g v);
               t = (\<Sum>w\<leftarrow>vs. length (filter (\<lambda>u. u \<noteq> w \<and> u \<in> set (neighbors g w)) vs));
               d = length vs
           in Inr (if t = 0 then 0 else real t / real (d * (d - 1))))"

subsection \<open>The normalized operator\<close>

text \<open>
  The quotient of two doubles is the double nearest to the exact quotient, a tie going
  to the neighbour with an even significand (IEEE 754 binary64, which Python's float
  division follows). A double other than zero is \<open>m * 2^(e - 52)\<close> with an integer \<open>m\<close>
  of 53 bits, so a number \<open>x\<close> with \<open>2^e \<le> |x| < 2^(e + 1)\<close> is rounded by rounding
  \<open>x / 2^(e - 52)\<close> to an integer. The range of the exponent is not modelled: the
  reciprocal of a degree is far from overflow and from the subnormal numbers.
\<close>

definition round_half_even :: "real \<Rightarrow> int" where
  \<comment> \<open>The nearest integer; halfway between two integers, the even one.\<close>
  "round_half_even y =
     (if frac y < 1/2 then \<lfloor>y\<rfloor>
      else if 1/2 < frac y then \<lfloor>y\<rfloor> + 1
      else if even \<lfloor>y\<rfloor> then \<lfloor>y\<rfloor> else \<lfloor>y\<rfloor> + 1)"

definition round_double :: "real \<Rightarrow> real" where
  \<comment> \<open>The nearest double, with 53 bits of significand.\<close>
  "round_double x =
     (if x = 0 then 0
      else real_of_int (round_half_even (x * 2 powr real_of_int (52 - \<lfloor>log 2 \<bar>x\<bar>\<rfloor>)))
             * 2 powr real_of_int (\<lfloor>log 2 \<bar>x\<bar>\<rfloor> - 52))"

definition create_D_inverse :: "graph \<Rightarrow> error + matrix" where
  \<comment> \<open>\<^verbatim>\<open>1.0/graph.degree[node]\<close> divides two doubles (a degree is an integer far below
      \<open>2^53\<close>, its conversion to a double is exact).\<close>
  "create_D_inverse graph' =
     (case for_each
             (\<lambda>node. case degree_lookup graph' node of
                        Inl e \<Rightarrow> Inl e
                      | Inr d \<Rightarrow> if d = 0 then Inl ZeroDivisionError
                                else Inr (round_double (1 / real d)))
             [0..<number_of_nodes graph'] of
        Inl e \<Rightarrow> Inl e
      | Inr values \<Rightarrow> Inr (coo_diagonal values))"

definition get_normalized_adjacency :: "graph \<Rightarrow> error + matrix" where
  "get_normalized_adjacency graph' =
     (case adjacency_matrix graph' [0..<number_of_nodes graph'] of
        Inl e \<Rightarrow> Inl e
      | Inr A \<Rightarrow>
          (case create_D_inverse graph' of
             Inl e \<Rightarrow> Inl e
           | Inr D_inverse \<Rightarrow>
               Inr (sp_scale (1/2)
                      (sp_add (sp_identity (number_of_nodes graph')) (sp_dot D_inverse A)))))"

subsection \<open>Node features\<close>

text \<open>
  The feature matrix \<open>X\<close> has one row per node and one column per descriptor. It is kept
  as the list of its columns: \<open>X ! col\<close> is the slice \<^verbatim>\<open>X[:, col]\<close> and \<open>length X\<close> is
  \<^verbatim>\<open>X.shape[1]\<close>.
\<close>

definition create_node_feature_matrix :: "graph \<Rightarrow> error + vector list" where
  "create_node_feature_matrix graph' =
     (case for_each
             (\<lambda>node. case degree_call graph' node of
                        Inl e \<Rightarrow> Inl e
                      | Inr d \<Rightarrow> Inr (ln (real (d + 1))))
             [0..<number_of_nodes graph'] of
        Inl e \<Rightarrow> Inl e
      | Inr log_degree \<Rightarrow>
          (case for_each
                  (\<lambda>node. case eccentricity graph' node of
                             Inl e \<Rightarrow> Inl e
                           | Inr d \<Rightarrow> Inr (real d))
                  [0..<number_of_nodes graph'] of
             Inl e \<Rightarrow> Inl e
           | Inr eccentricity' \<Rightarrow>
               (case for_each (clustering graph') [0..<number_of_nodes graph'] of
                  Inl e \<Rightarrow> Inl e
                | Inr clustering_coefficient \<Rightarrow>
                    Inr [log_degree, eccentricity', clustering_coefficient])))"

subsection \<open>Wavelets\<close>

definition calculate_wavelets :: "estimator \<Rightarrow> matrix \<Rightarrow> matrix list" where
  "calculate_wavelets self A_hat =
     map (\<lambda>power. sp_sub (sp_power A_hat (2 ^ nat power)) (sp_power A_hat (2 ^ nat (power + 1))))
       (py_range 0 (order self + 1))"

definition spec_wavelets :: "nat \<Rightarrow> matrix \<Rightarrow> matrix list" where
  \<comment> \<open>The bank as the specification describes it, with matrix powers.\<close>
  "spec_wavelets order' A_hat =
     map (\<lambda>k. sp_sub (matrix_power A_hat (2 ^ k)) (matrix_power A_hat (2 ^ (k + 1))))
       [0..<order' + 1]"

subsection \<open>Moment features\<close>

definition reshape_row :: "vector \<Rightarrow> ndarray" where
  \<comment> \<open>\<^verbatim>\<open>np.array(features).reshape(1, -1)\<close>: one row holding all the numbers.\<close>
  "reshape_row features = Array [Array (map Scalar features)]"

definition concatenate_axis1 :: "ndarray list \<Rightarrow> ndarray" where
  \<comment> \<open>\<^verbatim>\<open>np.concatenate(arrays, axis=1)\<close> on two-dimensional arrays with as many rows
      as the first: row \<open>i\<close> of the result is the rows \<open>i\<close> one after the other.\<close>
  "concatenate_axis1 arrays =
     Array (map (\<lambda>i. Array (concat (map (\<lambda>a. entries (entries a ! i)) arrays)))
              [0..<(case arrays of [] \<Rightarrow> 0 | a # _ \<Rightarrow> length (entries a))])"

definition moment_sums :: "vector \<Rightarrow> int list \<Rightarrow> vector" where
  \<comment> \<open>\<^verbatim>\<open>np.sum(np.power(x, q))\<close> for each \<open>q\<close> of a range of positive integers.\<close>
  "moment_sums x qs = map (\<lambda>q. (\<Sum>a\<leftarrow>x. a ^ nat q)) qs"

definition get_zero_order_features :: "estimator \<Rightarrow> vector list \<Rightarrow> ndarray" where
  "get_zero_order_features self X =
     (let X = map (map abs) X
      in reshape_row
           (concat (map (\<lambda>col. let x = map abs (X ! col)
                               in moment_sums x (py_range 1 (order self + 1)))
                      [0..<length X])))"

definition get_first_order_features ::
  "estimator \<Rightarrow> matrix list \<Rightarrow> vector list \<Rightarrow> error + ndarray" where
  "get_first_order_features self Psi X =
     (let X = map (map abs) X
      in on_success
           (for_each
              (\<lambda>col. let x = map abs (X ! col)
                     in for_each
                          (\<lambda>psi. on_success (dot_vector psi x)
                                   (\<lambda>filtered_x.
                                      Inr (moment_sums (map abs filtered_x)
                                             (py_range 1 (moments self)))))
                          Psi)
              [0..<length X])
           (\<lambda>blocks. Inr (reshape_row (concat (map concat blocks)))))"

definition cascade :: "matrix list \<Rightarrow> vector \<Rightarrow> int \<Rightarrow> int \<Rightarrow> error + vector" where
  \<comment> \<open>The body of the two inner loops up to \<^verbatim>\<open>filtered_x\<close>:
      \<^verbatim>\<open>np.abs(Psi[j].dot(np.abs(Psi[i].dot(x))))\<close>.\<close>
  "cascade Psi x i j =
     on_success (py_index Psi i) (\<lambda>psi_j.
     on_success (py_index Psi j) (\<lambda>psi_j_prime.
     on_success (dot_vector psi_j x) (\<lambda>y.
     on_success (dot_vector psi_j_prime (map abs y)) (\<lambda>z.
       Inr (map abs z)))))"

definition get_second_order_features ::
  "estimator \<Rightarrow> matrix list \<Rightarrow> vector list \<Rightarrow> error + ndarray" where
  "get_second_order_features self Psi X =
     (let X = map (map abs) X
      in on_success
           (for_each
              (\<lambda>col. let x = map abs (X ! col)
                     in for_each
                          (\<lambda>i. for_each
                                 (\<lambda>j. on_success (cascade Psi x i j)
                                        (\<lambda>filtered_x.
                                           Inr (moment_sums (map abs filtered_x)
                                                  (py_range 1 (moments self)))))
                                 (py_range (i + 1) (order self)))
                          (py_range 0 (order self - 1)))
              [0..<length X])
           (\<lambda>blocks. Inr (reshape_row (concat (map (\<lambda>b. concat (map concat b)) blocks)))))"

subsection \<open>The pipeline\<close>

definition calculate_geoscattering :: "estimator \<Rightarrow> graph \<Rightarrow> error + ndarray" where
  "calculate_geoscattering self graph' =
     on_success (get_normalized_adjacency graph') (\<lambda>A_hat.
       let Psi = calculate_wavelets self A_hat
       in on_success (create_node_feature_matrix graph') (\<lambda>X.
            let zero_order_features = get_zero_order_features self X
            in on_success (get_first_order_features self Psi X) (\<lambda>first_order_features.
               on_success (get_second_order_features self Psi X) (\<lambda>second_order_features.
                 Inr (concatenate_axis1
                        [zero_order_features, first_order_features,
                         second_order_features])))))"

definition check_graphs :: "graph list \<Rightarrow> error + unit" where
  \<comment> \<open>Modelled from the spec: \<^verbatim>\<open>Estimator._check_graphs\<close> of \<^verbatim>\<open>karateclub/estimator.py\<close>,
      which is not among the sources. The specification has the validation fail with an
      InputShapeError on an empty collection and on a graph whose node indices are not
      \<open>0..n-1\<close>; its result is not used by \<^verbatim>\<open>fit\<close>.\<close>
  "check_graphs graphs =
     (if graphs = [] \<or> (\<exists>g\<in>set graphs. \<not> contiguous g) then Inl InputShapeError
      else Inr ())"

definition fit :: "estimator \<Rightarrow> graph list \<Rightarrow> error + estimator" where
  \<comment> \<open>\<^verbatim>\<open>_embedding\<close> is assigned once the whole list has been computed; an exception
      leaves the object as it was.\<close>
  "fit self graphs =
     on_success (check_graphs graphs) (\<lambda>_.
     on_success (for_each (calculate_geoscattering self) graphs) (\<lambda>rows.
       Inr (self\<lparr>embedding := Some rows\<rparr>)))"

definition get_embedding :: "estimator \<Rightarrow> error + ndarray" where
  \<comment> \<open>\<^verbatim>\<open>np.array(self._embedding)\<close>; reading the attribute before it exists is an
      \<^verbatim>\<open>AttributeError\<close>.\<close>
  "get_embedding self =
     (case embedding self of None \<Rightarrow> Inl AttributeError | Some rows \<Rightarrow> Inr (Array rows))"

subsection \<open>Clients and example inputs\<close>

definition fit_calls :: "estimator \<Rightarrow> graph list list \<Rightarrow> estimator" where
  \<comment> \<open>A client that calls \<^verbatim>\<open>fit\<close> on one collection after the other and catches
      whatever a call raises.\<close>
  "fit_calls self calls =
     fold (\<lambda>graphs self. case fit self graphs of Inl e \<Rightarrow> self | Inr self' \<Rightarrow> self')
       calls self"

definition fit_then_get_embedding :: "estimator \<Rightarrow> graph list \<Rightarrow> error + ndarray" where
  \<comment> \<open>\<^verbatim>\<open>model.fit(graphs); model.get_embedding()\<close>\<close>
  "fit_then_get_embedding self graphs = on_success (fit self graphs) get_embedding"

definition edge_relation :: "graph \<Rightarrow> (node \<times> node) set" where
  "edge_relation g = {(v, w). v \<in> set (nodes g) \<and> w \<in> set (neighbors g v)}"

definition is_connected :: "graph \<Rightarrow> bool" where
  \<comment> \<open>Every node is joined to every node by a path.\<close>
  "is_connected g \<longleftrightarrow>
     (\<forall>u\<in>set (nodes g). \<forall>v\<in>set (nodes g). (u, v) \<in> (edge_relation g)\<^sup>*)"

definition upper_pairs :: "nat \<Rightarrow> (nat \<times> nat) list" where
  \<comment> \<open>The pairs \<open>(i, j)\<close> with \<open>0 \<le> i < j \<le> n - 1\<close>, in lexicographic order: the
      pair selection as the specification words it.\<close>
  "upper_pairs n = [(i, j). i \<leftarrow> [0..<n], j \<leftarrow> [0..<n], i < j]"

definition K2 :: graph where
  \<comment> \<open>Two nodes and the edge between them.\<close>
  "K2 = [(0, [1]), (1, [0])]"

definition cycle4 :: graph where
  \<comment> \<open>The cycle 0 - 1 - 2 - 3 - 0.\<close>
  "cycle4 = [(0, [1, 3]), (1, [0, 2]), (2, [1, 3]), (3, [2, 0])]"

definition two_edges :: graph where
  \<comment> \<open>The edges 0 - 1 and 2 - 3: two components, no isolated node.\<close>
  "two_edges = [(0, [1]), (1, [0]), (2, [3]), (3, [2])]"

definition edge_and_isolated :: graph where
  \<comment> \<open>The edge 0 - 1 and the isolated node 2.\<close>
  "edge_and_isolated = [(0, [1]), (1, [0]), (2, [])]"

definition star3 :: graph where
  \<comment> \<open>The star with centre 0 and the leaves 1, 2 and 3.\<close>
  "star3 = [(0, [1, 2, 3]), (1, [0]), (2, [0]), (3, [0])]"

section \<open>Properties\<close>

subsection \<open>Rounding to the nearest double\<close>

lemma round_half_even_error: "\<bar>real_of_int (round_half_even y) - y\<bar> \<le> 1/2"
  unfolding round_half_even_def frac_def by (auto simp: abs_le_iff)

lemma round_half_even_int: "round_half_even (real_of_int n) = n"
  by (simp add: round_half_even_def)

lemma round_double_at:
  assumes "0 < x" and "2 powr real_of_int e \<le> x" and "x < 2 powr real_of_int (e + 1)"
  shows "round_double x
       = real_of_int (round_half_even (x * 2 powr real_of_int (52 - e)))
           * 2 powr real_of_int (e - 52)"
proof -
  from assms have "\<lfloor>log 2 x\<rfloor> = e"
    by (simp add: floor_log_eq_powr_iff)
  with assms(1) show ?thesis by (simp add: round_double_def)
qed

lemma round_double_one: "round_double 1 = 1"
  using round_double_at [of 1 0] round_half_even_int [of "2 ^ 52"]
  by (simp add: powr_minus)

lemma round_double_half: "round_double (1/2) = 1/2"
  using round_double_at [of "1/2" "-1"] round_half_even_int [of "2 ^ 52"]
  by (simp add: powr_minus)

lemma round_double_third: "round_double (1/3) = 6004799503160661 / 2 ^ 54"
proof -
  have "round_half_even (18014398509481984 / 3) = 6004799503160661"
    by (simp add: round_half_even_def frac_def)
  with round_double_at [of "1/3" "-2"] show ?thesis
    by (simp add: powr_minus)
qed

text \<open>
  Rounding changes a number by at most the fraction \<open>2\<^sup>-\<^sup>5\<^sup>3\<close> of it, and leaves the
  reciprocal of a power of two as it is.
\<close>

lemma round_double_error: "\<bar>round_double x - x\<bar> \<le> \<bar>x\<bar> / 2 ^ 53"
proof (cases "x = 0")
  case True
  then show ?thesis by (simp add: round_double_def)
next
  case False
  define e where "e = \<lfloor>log 2 \<bar>x\<bar>\<rfloor>"
  define s where "s = 2 powr real_of_int (e - 52)"
  have s: "0 < s" by (simp add: s_def)
  have "2 powr real_of_int (52 - e) * s = 1"
    by (simp add: s_def powr_add [symmetric])
  with s have inv: "2 powr real_of_int (52 - e) = 1 / s"
    by (simp add: field_simps)
  from False have "2 powr real_of_int e \<le> \<bar>x\<bar>"
    using floor_log_eq_powr_iff [of "\<bar>x\<bar>" 2 e] by (simp add: e_def)
  moreover have "2 powr real_of_int e = s * 2 ^ 52"
    by (simp add: s_def powr_diff)
  ultimately have low: "s * 2 ^ 52 \<le> \<bar>x\<bar>" by simp
  have "round_double x
      = real_of_int (round_half_even (x * 2 powr real_of_int (52 - e)))
          * 2 powr real_of_int (e - 52)"
    using False unfolding round_double_def e_def by (simp only: if_False)
  then have "round_double x = real_of_int (round_half_even (x / s)) * s"
    unfolding inv s_def [symmetric] by simp
  moreover have "real_of_int (round_half_even (x / s)) * s - x
      = (real_of_int (round_half_even (x / s)) - x / s) * s"
    using s by (simp add: left_diff_distrib)
  ultimately have "\<bar>round_double x - x\<bar>
      = \<bar>real_of_int (round_half_even (x / s)) - x / s\<bar> * s"
    using s by (simp add: abs_mult)
  also have "\<dots> \<le> 1/2 * s"
    using round_half_even_error [of "x / s"] s by (intro mult_right_mono) simp_all
  also have "\<dots> \<le> \<bar>x\<bar> / 2 ^ 53" using low by simp
  finally show ?thesis .
qed

lemma round_double_power_of_two: "round_double (1 / 2 ^ k) = 1 / 2 ^ k"
proof -
  have x: "(1::real) / 2 ^ k = 2 powr real_of_int (- int k)"
    by (simp add: powr_minus powr_realpow inverse_eq_divide)
  have "round_double (2 powr real_of_int (- int k))
      = real_of_int (round_half_even
                       (2 powr real_of_int (- int k) * 2 powr real_of_int (52 - (- int k))))
          * 2 powr real_of_int (- int k - 52)"
    by (rule round_double_at) (simp_all add: powr_add)
  also have "2 powr real_of_int (- int k) * 2 powr real_of_int (52 - (- int k))
      = real_of_int (2 ^ 52)"
    by (simp add: powr_add [symmetric])
  also have "round_half_even (real_of_int (2 ^ 52)) = 2 ^ 52" by (rule round_half_even_int)
  also have "real_of_int (2 ^ 52) * 2 powr real_of_int (- int k - 52)
      = 2 powr real_of_int (- int k)"
    by (simp add: powr_diff)
  finally show ?thesis by (simp only: x)
qed

lemma reciprocal_rounded:
  fixes d :: real
  assumes "0 < d"
  shows "\<bar>d * round_double (1 / d) - 1\<bar> \<le> 1 / 2 ^ 53"
proof -
  let ?r = "round_double (1 / d)"
  from assms have "d * ?r - 1 = d * (?r - 1 / d)" by (simp add: right_diff_distrib)
  then have "\<bar>d * ?r - 1\<bar> = \<bar>d\<bar> * \<bar>?r - 1 / d\<bar>" by (simp only: abs_mult)
  with assms have "\<bar>d * ?r - 1\<bar> = d * \<bar>?r - 1 / d\<bar>" by simp
  also have "\<dots> \<le> d * (\<bar>1 / d\<bar> / 2 ^ 53)"
    using round_double_error [of "1 / d"] assms by (intro mult_left_mono) simp_all
  also have "\<dots> = 1 / 2 ^ 53" using assms by simp
  finally show ?thesis .
qed

lemma half_way:
  fixes x :: real
  assumes "\<bar>x - 1\<bar> \<le> e"
  shows "\<bar>1/2 + 1/2 * x - 1\<bar> \<le> e / 2"
  using assms by linarith

subsection \<open>Sequencing and loops that may raise\<close>

lemma on_success_Inr [simp]: "on_success (Inr a) f = f a"
  by (simp add: on_success_def)

lemma on_success_Inl [simp]: "on_success (Inl e) f = Inl e"
  by (simp add: on_success_def)

lemma on_success_eq_Inr:
  "on_success r f = Inr b \<longleftrightarrow> (\<exists>a. r = Inr a \<and> f a = Inr b)"
  by (cases r) simp_all

lemma for_each_length: "for_each f xs = Inr ys \<Longrightarrow> length ys = length xs"
  by (induction xs arbitrary: ys) (auto split: sum.splits)

lemma for_each_nth:
  "for_each f xs = Inr ys \<Longrightarrow> i < length xs \<Longrightarrow> f (xs ! i) = Inr (ys ! i)"
proof (induction xs arbitrary: ys i)
  case Nil
  then show ?case by simp
next
  case (Cons x xs)
  from Cons.prems(1) obtain y zs where y: "f x = Inr y" and zs: "for_each f xs = Inr zs"
    and ys: "ys = y # zs"
    by (auto split: sum.splits)
  show ?case
  proof (cases i)
    case 0
    with y ys show ?thesis by simp
  next
    case (Suc j)
    with Cons.prems(2) have "j < length xs" by simp
    from Cons.IH [OF zs this] Suc ys show ?thesis by simp
  qed
qed

lemma for_each_Inr_map:
  "(\<And>x. x \<in> set xs \<Longrightarrow> f x = Inr (g x)) \<Longrightarrow> for_each f xs = Inr (map g xs)"
  by (induction xs) auto

lemma for_each_Inl:
  "x \<in> set xs \<Longrightarrow> f x = Inl e \<Longrightarrow> \<exists>e'. for_each f xs = Inl e'"
  by (induction xs) (auto split: sum.splits)

lemma for_each_first_failure:
  "for_each f pre = Inr ys \<Longrightarrow> f x = Inl e \<Longrightarrow> for_each f (pre @ x # post) = Inl e"
  by (induction pre arbitrary: ys) (auto split: sum.splits)

lemma py_range_upt: "py_range a b = map (\<lambda>k. a + int k) [0..<nat (b - a)]"
proof (induction "nat (b - a)" arbitrary: a)
  case 0
  then show ?case by (simp add: py_range_def)
next
  case (Suc n)
  then have lt: "a < b" and n: "n = nat (b - (a + 1))" by linarith+
  from lt have "py_range a b = a # py_range (a + 1) b"
    by (simp add: py_range_def upto.simps)
  also have "py_range (a + 1) b = map (\<lambda>k. a + 1 + int k) [0..<nat (b - (a + 1))]"
    using Suc.hyps(1) [OF n] .
  also have "a # map (\<lambda>k. a + 1 + int k) [0..<nat (b - (a + 1))]
      = map (\<lambda>k. a + int k) [0..<Suc (nat (b - (a + 1)))]"
    by (simp add: upt_conv_Cons map_Suc_upt [symmetric] ac_simps del: upt_Suc)
  also have "Suc (nat (b - (a + 1))) = nat (b - a)" using lt by linarith
  finally show ?case .
qed

subsection \<open>The embedding exists once a call of fit has completed\<close>

lemma for_each_only_error:
  assumes "x \<in> set xs" and "f x = Inl e"
    and "\<And>y e'. y \<in> set xs \<Longrightarrow> f y = Inl e' \<Longrightarrow> e' = e"
  shows "for_each f xs = Inl e"
  using assms
proof (induction xs)
  case Nil
  then show ?case by simp
next
  case (Cons a xs)
  show ?case
  proof (cases "f a")
    case (Inl e')
    with Cons.prems(3) [of a e'] show ?thesis by simp
  next
    case (Inr y)
    with Cons.prems(1,2) have x: "x \<in> set xs" by auto
    have "for_each f xs = Inl e"
    proof (rule Cons.IH [OF x Cons.prems(2)])
      fix y e' assume "y \<in> set xs" "f y = Inl e'"
      then show "e' = e" using Cons.prems(3) [of y e'] by simp
    qed
    with Inr show ?thesis by simp
  qed
qed

lemma calculate_geoscattering_hyper:
  "order s = order t \<Longrightarrow> moments s = moments t \<Longrightarrow> calculate_geoscattering s = calculate_geoscattering t"
  unfolding calculate_geoscattering_def calculate_wavelets_def
      get_zero_order_features_def get_first_order_features_def get_second_order_features_def
  by simp

lemma fit_result:
  "fit s graphs = Inr s' \<longleftrightarrow>
     check_graphs graphs = Inr () \<and>
     (\<exists>rows. for_each (calculate_geoscattering s) graphs = Inr rows \<and> s' = s\<lparr>embedding := Some rows\<rparr>)"
proof (cases "check_graphs graphs")
  case (Inl e)
  then show ?thesis by (simp add: fit_def)
next
  case (Inr u)
  show ?thesis
  proof (cases "for_each (calculate_geoscattering s) graphs")
    case (Inl e)
    with Inr show ?thesis by (simp add: fit_def)
  next
    case rows: (Inr rows)
    with Inr show ?thesis by (auto simp: fit_def)
  qed
qed


lemma fit_hyper:
  assumes "order s = order t" and "moments s = moments t"
  shows "(\<exists>s'. fit s graphs = Inr s') \<longleftrightarrow> (\<exists>t'. fit t graphs = Inr t')"
  using calculate_geoscattering_hyper [OF assms] by (simp add: fit_result)

lemma fit_calls_state:
  "order (fit_calls s calls) = order s \<and> moments (fit_calls s calls) = moments s \<and>
   (embedding (fit_calls s calls) \<noteq> None \<longleftrightarrow>
      embedding s \<noteq> None \<or> (\<exists>graphs\<in>set calls. \<exists>s'. fit s graphs = Inr s'))"
proof (induction calls arbitrary: s)
  case Nil
  show ?case by (simp add: fit_calls_def)
next
  case (Cons graphs calls)
  show ?case
  proof (cases "fit s graphs")
    case (Inl e)
    then have "fit_calls s (graphs # calls) = fit_calls s calls"
      by (simp add: fit_calls_def)
    with Cons.IH [of s] Inl show ?thesis by simp
  next
    case (Inr s')
    then have step: "fit_calls s (graphs # calls) = fit_calls s' calls"
      by (simp add: fit_calls_def)
    from Inr obtain rows where "s' = s\<lparr>embedding := Some rows\<rparr>"
      by (auto simp: fit_result)
    then have s': "order s' = order s" "moments s' = moments s" "embedding s' \<noteq> None"
      by simp_all
    have "\<And>gs. (\<exists>t. fit s' gs = Inr t) \<longleftrightarrow> (\<exists>t. fit s gs = Inr t)"
      by (rule fit_hyper) (simp_all add: s')
    with Cons.IH [of s'] step s' Inr show ?thesis by auto
  qed
qed

text \<open>
  Claim C10. On a fresh object \<^verbatim>\<open>get_embedding\<close> raises (the attribute \<^verbatim>\<open>_embedding\<close> does
  not exist yet). After any sequence of calls of \<^verbatim>\<open>fit\<close>, whose exceptions the client
  catches, \<^verbatim>\<open>get_embedding\<close> returns an array if and only if one of the calls completed,
  and raises the \<^verbatim>\<open>AttributeError\<close> otherwise.
\<close>

theorem get_embedding_defined_iff_fit_completed:
  "get_embedding (init order' moments') = Inl AttributeError \<and>
   ((\<exists>E. get_embedding (fit_calls (init order' moments') calls) = Inr E) \<longleftrightarrow>
    (\<exists>graphs\<in>set calls. \<exists>self'. fit (init order' moments') graphs = Inr self')) \<and>
   (get_embedding (fit_calls (init order' moments') calls) = Inl AttributeError \<longleftrightarrow>
    \<not> (\<exists>graphs\<in>set calls. \<exists>self'. fit (init order' moments') graphs = Inr self'))"
proof -
  have e: "embedding (init order' moments') = None" by (simp add: init_def)
  from fit_calls_state [of "init order' moments'" calls] e
  have iff: "embedding (fit_calls (init order' moments') calls) \<noteq> None \<longleftrightarrow>
      (\<exists>graphs\<in>set calls. \<exists>s'. fit (init order' moments') graphs = Inr s')"
    by simp
  have g: "\<And>s. (\<exists>E. get_embedding s = Inr E) \<longleftrightarrow> embedding s \<noteq> None"
    by (simp add: get_embedding_def split: option.splits)
  have g': "\<And>s. get_embedding s = Inl AttributeError \<longleftrightarrow> embedding s = None"
    by (simp add: get_embedding_def split: option.splits)
  from iff have iff': "embedding (fit_calls (init order' moments') calls) = None \<longleftrightarrow>
      \<not> (\<exists>graphs\<in>set calls. \<exists>s'. fit (init order' moments') graphs = Inr s')"
    by blast
  show ?thesis unfolding g g' using e iff iff' by blast
qed

subsection \<open>The wavelet bank\<close>

lemma K2_operator: "get_normalized_adjacency K2 = Inr [[1/2, 1/2], [1/2, 1/2]]"
  by (simp add: get_normalized_adjacency_def adjacency_matrix_def create_D_inverse_def
      degree_lookup_def number_of_nodes_def nodes_def neighbors_def K2_def upt_rec
      coo_diagonal_def sp_scale_def sp_add_def sp_identity_def sp_dot_def ncols_def
      round_double_one round_double_half)

text \<open>
  Claim C1. The specification has \<open>\<Psi>\<^sub>k = A_hat^(2^k) - A_hat^(2^(k+1))\<close> with matrix powers.
  The source calls \<^verbatim>\<open>A_hat.power\<close>, which raises every entry to the power. On the operator
  of the graph with two nodes and one edge, every entry of which is 1/2, and with
  \<open>order = 0\<close>, the source returns the matrix with every entry 1/4, where the bank of the
  specification is the zero matrix (this operator is its own square).
\<close>

theorem calculate_wavelets_elementwise_on_K2:
  "get_normalized_adjacency K2 = Inr [[1/2, 1/2], [1/2, 1/2]] \<and>
   calculate_wavelets (init 0 4) [[1/2, 1/2], [1/2, 1/2]] = [[[1/4, 1/4], [1/4, 1/4]]] \<and>
   spec_wavelets 0 [[1/2, 1/2], [1/2, 1/2]] = [[[0, 0], [0, 0]]]"
proof -
  have "calculate_wavelets (init 0 4) [[1/2, 1/2], [1/2, 1/2]] = [[[1/4, 1/4], [1/4, 1/4]]]"
    by (simp add: calculate_wavelets_def init_def py_range_def sp_sub_def sp_power_def
        power2_eq_square)
  moreover have "spec_wavelets 0 [[1/2, 1/2], [1/2, 1/2]] = [[[0, 0], [0, 0]]]"
    by (simp add: spec_wavelets_def sp_sub_def sp_dot_def sp_identity_def ncols_def
        numeral_2_eq_2)
  ultimately show ?thesis using K2_operator by simp
qed

text \<open>
  Claim C7. On the same operator, with \<open>order = 1\<close>, the wavelets the source returns add
  up to the matrix with every entry \<open>1/2 - (1/2)^4 = 7/16\<close>, where the difference of matrix
  powers \<open>A_hat^1 - A_hat^4\<close> is the zero matrix.
\<close>

theorem wavelet_sum_elementwise_on_K2:
  "matrix_sum (calculate_wavelets (init 1 4) [[1/2, 1/2], [1/2, 1/2]])
     = [[7/16, 7/16], [7/16, 7/16]] \<and>
   sp_sub (matrix_power [[1/2, 1/2], [1/2, 1/2]] 1)
          (matrix_power [[1/2, 1/2], [1/2, 1/2]] (2 ^ (1 + 1)))
     = [[0, 0], [0, 0]]"
proof -
  have "matrix_sum (calculate_wavelets (init 1 4) [[1/2, 1/2], [1/2, 1/2]])
     = [[7/16, 7/16], [7/16, 7/16]]"
    by (simp add: calculate_wavelets_def init_def py_range_def sp_sub_def sp_power_def
        sp_add_def upto.simps power_divide)
  moreover have "sp_sub (matrix_power [[1/2, 1/2], [1/2, 1/2]] 1)
          (matrix_power [[1/2, 1/2], [1/2, 1/2]] (2 ^ (1 + 1))) = [[0, 0], [0, 0]]"
    by (simp add: sp_sub_def sp_dot_def sp_identity_def ncols_def eval_nat_numeral)
  ultimately show ?thesis by simp
qed

subsection \<open>Zero-order features\<close>

lemma scalars_reshape_row [simp]: "scalars (reshape_row fs) = fs"
  by (simp add: reshape_row_def comp_def)

lemma shape_reshape_row [simp]: "shape (reshape_row fs) = [1, length fs]"
  by (cases fs) (simp_all add: reshape_row_def)

lemma length_moment_sums [simp]: "length (moment_sums x qs) = length qs"
  by (simp add: moment_sums_def)

lemma length_py_range [simp]: "length (py_range a b) = nat (b - a)"
  by (simp add: py_range_upt)

lemma map_columns: "map (\<lambda>col. f (xs ! col)) [0..<length xs] = map f xs"
  by (rule nth_equalityI) simp_all

lemma moment_sums_range:
  "moment_sums x (py_range 1 b) = map (\<lambda>q. (\<Sum>a\<leftarrow>x. a ^ q)) [1..<nat b]"
proof -
  have "moment_sums x (py_range 1 b) = map (\<lambda>k. (\<Sum>a\<leftarrow>x. a ^ Suc k)) [0..<nat (b - 1)]"
    by (simp add: moment_sums_def py_range_upt comp_def nat_add_distrib)
  also have "\<dots> = map (\<lambda>q. (\<Sum>a\<leftarrow>x. a ^ q)) (map Suc [0..<nat (b - 1)])"
    by (simp add: comp_def)
  also have "map Suc [0..<nat (b - 1)] = [1..<nat b]"
  proof (cases "1 \<le> b")
    case True
    then have "Suc (nat (b - 1)) = nat b" by linarith
    then show ?thesis by (simp add: map_Suc_upt del: upt_Suc)
  next
    case False
    then have "nat (b - 1) = 0" "nat b = 0" by linarith+
    then show ?thesis by simp
  qed
  finally show ?thesis .
qed

lemma zero_order_scalars:
  "scalars (get_zero_order_features self X)
     = concat (map (\<lambda>x. map (\<lambda>q. (\<Sum>a\<leftarrow>x. \<bar>a\<bar> ^ q)) [1..<nat (order self) + 1]) X)"
proof -
  have "scalars (get_zero_order_features self X)
      = concat (map (\<lambda>col. moment_sums (map abs (map (map abs) X ! col)) (py_range 1 (order self + 1)))
          [0..<length (map (map abs) X)])"
    by (simp add: get_zero_order_features_def Let_def)
  also have "\<dots> = concat (map (\<lambda>x. moment_sums (map abs x) (py_range 1 (order self + 1))) (map (map abs) X))"
    using map_columns [of "\<lambda>x. moment_sums (map abs x) (py_range 1 (order self + 1))"
        "map (map abs) X"]
    by simp
  also have "\<dots> = concat (map (\<lambda>x. map (\<lambda>q. (\<Sum>a\<leftarrow>x. \<bar>a\<bar> ^ q)) [1..<nat (order self) + 1]) X)"
    by (simp add: moment_sums_range comp_def nat_add_distrib) 
  finally show ?thesis .
qed


lemma length_concat_uniform:
  "(\<And>x. x \<in> set xs \<Longrightarrow> length x = k) \<Longrightarrow> length (concat xs) = length xs * k"
  by (induction xs) simp_all

text \<open>
  Claim C5, as the source has it. For a feature matrix of three columns the zero-order
  block holds, column after column, the sums of \<open>|x|^q\<close> over the nodes for
  \<open>q = 1, ..., order\<close>; the range follows \<open>order\<close>, not \<open>moments\<close>, and no wavelet is an
  argument of the function. The block has \<open>3 * order\<close> numbers when \<open>order \<ge> 0\<close> and is
  empty for a negative \<open>order\<close>.
\<close>

theorem zero_order_features:
  assumes "length X = 3"
  shows "scalars (get_zero_order_features self X)
           = concat (map (\<lambda>x. map (\<lambda>q. (\<Sum>a\<leftarrow>x. \<bar>a\<bar> ^ q)) [1..<nat (order self) + 1]) X) \<and>
         length (scalars (get_zero_order_features self X)) = 3 * nat (order self) \<and>
         shape (get_zero_order_features self X) = [1, 3 * nat (order self)] \<and>
         (0 \<le> order self \<longrightarrow>
            int (length (scalars (get_zero_order_features self X))) = 3 * order self)"
proof -
  let ?blocks = "map (\<lambda>x. map (\<lambda>q. (\<Sum>a\<leftarrow>x. \<bar>a\<bar> ^ q)) [1..<nat (order self) + 1]) X"
  have s: "scalars (get_zero_order_features self X) = concat ?blocks"
    by (rule zero_order_scalars)
  have "length (concat ?blocks) = length ?blocks * nat (order self)"
    by (rule length_concat_uniform) auto
  with assms have l: "length (concat ?blocks) = 3 * nat (order self)" by simp
  have "get_zero_order_features self X = reshape_row (scalars (get_zero_order_features self X))"
    by (simp add: get_zero_order_features_def Let_def)
  then have "shape (get_zero_order_features self X)
      = [1, length (scalars (get_zero_order_features self X))]"
    by (metis shape_reshape_row)
  with s l show ?thesis by simp
qed

theorem zero_order_features_witness:
  "length [[1, 2], [3, 4], [5, 6::real]] = 3 \<and>
   scalars (get_zero_order_features (init 2 4) [[1, 2], [3, 4], [5, 6]]) = [3, 5, 7, 25, 11, 61] \<and>
   shape (get_zero_order_features (init 2 4) [[1, 2], [3, 4], [5, 6]]) = [1, 6]"
  using zero_order_features [of "[[1, 2], [3, 4], [5, 6]]" "init 2 4"]
  by (simp add: init_def upt_rec)

text \<open>
  The count \<open>3 * order\<close> of claim C5 fails for a negative \<open>order\<close>, which the
  constructor accepts: with \<open>order = -1\<close> the block is empty.
\<close>

theorem zero_order_negative_order:
  "int (length (scalars (get_zero_order_features (init (- 1) 4) [[1, 2], [3, 4], [5, 6]])))
     \<noteq> 3 * order (init (- 1) 4)"
  by (simp add: zero_order_scalars init_def)

subsection \<open>Second-order features\<close>

lemma dot_vector_ok:
  "(\<And>row. row \<in> set M \<Longrightarrow> length row = length x) \<Longrightarrow> dot_vector M x = Inr (matvec M x)"
  by (simp add: dot_vector_def)

lemma length_matvec [simp]: "length (matvec M x) = length M"
  by (simp add: matvec_def)

lemma py_index_nat: "k < length xs \<Longrightarrow> py_index xs (int k) = Inr (xs ! k)"
  by (simp add: py_index_def)

lemma py_range_from_nat: "py_range (int i) b = map int [i..<nat b]"
proof -
  have "py_range (int i) b = map (\<lambda>k. int (i + k)) [0..<nat (b - int i)]"
    by (simp add: py_range_upt)
  also have "nat (b - int i) = nat b - i" by arith
  also have "map (\<lambda>k. int (i + k)) [0..<nat b - i] = map int (map (\<lambda>k. i + k) [0..<nat b - i])"
    by (simp add: comp_def)
  also have "map (\<lambda>k. i + k) [0..<nat b - i] = [i..<nat b]"
    by (rule nth_equalityI) simp_all
  finally show ?thesis .
qed

lemma filter_greater_upt: "filter (\<lambda>j. i < j) [0..<n] = [Suc i..<n]"
  by (induction n) auto

lemma upper_pairs_loops:
  "concat (map (\<lambda>i. map (Pair i) [Suc i..<n]) [0..<n - 1]) = upper_pairs n"
proof -
  have inner: "\<And>i. concat (map (\<lambda>j. if i < j then [(i, j)] else []) [0..<n])
      = map (Pair i) (filter (\<lambda>j. i < j) [0..<n])"
    by (induction n) auto
  have "upper_pairs n = concat (map (\<lambda>i. map (Pair i) [Suc i..<n]) [0..<n])"
    by (simp add: upper_pairs_def inner filter_greater_upt)
  also have "\<dots> = concat (map (\<lambda>i. map (Pair i) [Suc i..<n]) [0..<n - 1])"
    by (cases n) simp_all
  finally show ?thesis by simp
qed

lemma set_upper_pairs: "set (upper_pairs n) = {(i, j). i < j \<and> j < n}"
  by (auto simp: upper_pairs_def)

lemma triangle_sum: "(\<Sum>i\<leftarrow>[0..<n]. n - Suc i) * 2 = n * (n - 1)"
proof (induction n)
  case 0
  show ?case by simp
next
  case (Suc n)
  have "(\<Sum>i\<leftarrow>[0..<Suc n]. Suc n - Suc i) = (\<Sum>i\<leftarrow>[0..<n]. n - i)"
    by simp
  also have "map (\<lambda>i. n - i) [0..<n] = map (\<lambda>i. Suc (n - Suc i)) [0..<n]"
    by (rule map_cong) auto
  also have "(\<Sum>i\<leftarrow>[0..<n]. Suc (n - Suc i)) = (\<Sum>i\<leftarrow>[0..<n]. n - Suc i) + n"
    by (simp add: sum_list_Suc)
  finally have "(\<Sum>i\<leftarrow>[0..<Suc n]. Suc n - Suc i) * 2 = (\<Sum>i\<leftarrow>[0..<n]. n - Suc i) * 2 + 2 * n"
    by simp
  with Suc show ?case by (cases n) simp_all
qed

lemma length_upper_pairs: "length (upper_pairs n) = n * (n - 1) div 2"
proof -
  have "length (upper_pairs n) = (\<Sum>i\<leftarrow>[0..<n - 1]. n - Suc i)"
    by (simp add: upper_pairs_loops [symmetric] length_concat comp_def)
  also have "\<dots> = (\<Sum>i\<leftarrow>[0..<n]. n - Suc i)"
    by (cases n) simp_all
  finally show ?thesis using triangle_sum [of n] by simp
qed

lemma cascade_ok:
  assumes i: "i < length Psi" and j: "j < length Psi"
    and sq: "\<And>psi. psi \<in> set Psi \<Longrightarrow> length psi = n \<and> (\<forall>row\<in>set psi. length row = n)"
    and x: "length x = n"
  shows "cascade Psi x (int i) (int j)
           = Inr (map abs (matvec (Psi ! j) (map abs (matvec (Psi ! i) x))))"
proof -
  from i j have mem: "Psi ! i \<in> set Psi" "Psi ! j \<in> set Psi" by simp_all
  have d1: "dot_vector (Psi ! i) x = Inr (matvec (Psi ! i) x)"
    using sq [OF mem(1)] x by (intro dot_vector_ok) simp
  have "length (map abs (matvec (Psi ! i) x)) = n"
    using sq [OF mem(1)] by simp
  then have d2: "dot_vector (Psi ! j) (map abs (matvec (Psi ! i) x))
      = Inr (matvec (Psi ! j) (map abs (matvec (Psi ! i) x)))"
    using sq [OF mem(2)] by (intro dot_vector_ok) simp
  show ?thesis
    by (simp add: cascade_def py_index_nat [OF i] py_index_nat [OF j] d1 d2)
qed

lemma second_order_column:
  assumes bank: "nat (order self) \<le> length Psi"
    and sq: "\<And>psi. psi \<in> set Psi \<Longrightarrow> length psi = n \<and> (\<forall>row\<in>set psi. length row = n)"
    and x: "length x = n"
  shows "for_each
           (\<lambda>i. for_each
                  (\<lambda>j. on_success (cascade Psi x i j)
                         (\<lambda>filtered_x. Inr (moment_sums (map abs filtered_x)
                                               (py_range 1 (moments self)))))
                  (py_range (i + 1) (order self)))
           (py_range 0 (order self - 1))
         = Inr (map (\<lambda>i. map (\<lambda>j. map (\<lambda>q. (\<Sum>a\<leftarrow>matvec (Psi ! j) (map abs (matvec (Psi ! i) x)). \<bar>a\<bar> ^ q))
                                   [1..<nat (moments self)])
                          [Suc i..<nat (order self)])
                  [0..<nat (order self) - 1])"
    (is "for_each ?outer _ = Inr (map ?res _)")
proof -
  have r0: "py_range 0 (order self - 1) = map int [0..<nat (order self) - 1]"
  proof -
    have "nat (order self - 1) = nat (order self) - 1" by arith
    with py_range_from_nat [of 0 "order self - 1"] show ?thesis by simp
  qed
  have inner: "?outer (int i) = Inr (?res i)" if "i < nat (order self) - 1" for i
  proof -
    have r: "py_range (int i + 1) (order self) = map int [Suc i..<nat (order self)]"
      using py_range_from_nat [of "Suc i" "order self"] by (simp add: add.commute)
    have "for_each
            (\<lambda>j. on_success (cascade Psi x (int i) j)
                   (\<lambda>filtered_x. Inr (moment_sums (map abs filtered_x)
                                         (py_range 1 (moments self)))))
            (map int [Suc i..<nat (order self)])
          = Inr (map (\<lambda>j. map (\<lambda>q. (\<Sum>a\<leftarrow>matvec (Psi ! nat j) (map abs (matvec (Psi ! i) x)). \<bar>a\<bar> ^ q))
                              [1..<nat (moments self)])
                   (map int [Suc i..<nat (order self)]))"
    proof (rule for_each_Inr_map)
      fix j' assume "j' \<in> set (map int [Suc i..<nat (order self)])"
      then obtain j where j': "j' = int j" and j: "Suc i \<le> j" "j < nat (order self)" by auto
      from j bank have "i < length Psi" "j < length Psi" by simp_all
      from cascade_ok [OF this sq x]
      show "on_success (cascade Psi x (int i) j')
                   (\<lambda>filtered_x. Inr (moment_sums (map abs filtered_x)
                                         (py_range 1 (moments self))))
         = Inr (map (\<lambda>q. (\<Sum>a\<leftarrow>matvec (Psi ! nat j') (map abs (matvec (Psi ! i) x)). \<bar>a\<bar> ^ q))
                              [1..<nat (moments self)])"
        by (simp add: j' moment_sums_range comp_def)
    qed
    then show ?thesis by (simp add: r comp_def)
  qed
  have "for_each ?outer (map int [0..<nat (order self) - 1])
      = Inr (map (\<lambda>i. ?res (nat i)) (map int [0..<nat (order self) - 1]))"
    by (rule for_each_Inr_map) (auto simp: inner)
  then show ?thesis by (simp add: r0 comp_def)
qed

lemma concat_twice: "concat (concat xss) = concat (map concat xss)"
  by (induction xss) simp_all

lemma pairs_flatten:
  "concat (map concat (map (\<lambda>i. map (\<lambda>j. M i j) [Suc i..<n]) [0..<n - 1]))
     = concat (map (\<lambda>(i, j). M i j) (upper_pairs n))"
proof -
  have "concat (map (\<lambda>(i, j). M i j) (upper_pairs n))
      = concat (map (\<lambda>(i, j). M i j) (concat (map (\<lambda>i. map (Pair i) [Suc i..<n]) [0..<n - 1])))"
    by (simp only: upper_pairs_loops)
  also have "\<dots> = concat (concat (map (\<lambda>i. map (\<lambda>j. M i j) [Suc i..<n]) [0..<n - 1]))"
    by (simp add: map_concat comp_def)
  also have "\<dots> = concat (map concat (map (\<lambda>i. map (\<lambda>j. M i j) [Suc i..<n]) [0..<n - 1]))"
    by (rule concat_twice)
  finally show ?thesis by simp
qed

lemma pair_count_int:
  assumes "0 \<le> (k::int)" and "1 \<le> (m::int)"
  shows "int (3 * (nat k * (nat k - 1) div 2) * nat (m - 1)) = 3 * (k * (k - 1) div 2) * (m - 1)"
proof -
  have "int (nat k * (nat k - 1)) = k * (k - 1)"
  proof (cases "k = 0")
    case True
    then show ?thesis by simp
  next
    case False
    with assms(1) have "int (nat k - 1) = k - 1" by simp
    with assms(1) show ?thesis by simp
  qed
  then have "int (nat k * (nat k - 1) div 2) = k * (k - 1) div 2"
    by (simp add: zdiv_int)
  with assms(2) show ?thesis by simp
qed

definition example_bank :: "matrix list" where
  "example_bank = [[[1, 0], [0, 1]], [[0, 1], [1, 0]], [[1, 1], [1, 1]]]"

definition example_features :: "vector list" where
  "example_features = [[1, 2], [3, 4], [5, 6]]"

text \<open>
  Claim C2, as the source has it. Let the feature matrix have three columns of length
  \<open>n\<close> and let the bank hold at least \<open>order\<close> matrices, all \<open>n \<times> n\<close>. Then the
  second-order block is computed without an exception and holds, column after column and
  for the pairs \<open>(i, j)\<close> with \<open>0 \<le> i < j \<le> order - 1\<close> in lexicographic order, the sums
  of \<open>|z|^q\<close> for \<open>q = 1, ..., moments - 1\<close>, where \<open>z = \<Psi>\<^sub>j |\<Psi>\<^sub>i |x||\<close>. No pair
  has an index \<open>order\<close>, so the last wavelet of the bank is not used. The block has
  \<open>3 * (order * (order - 1) / 2) * (moments - 1)\<close> numbers when \<open>order \<ge> 0\<close> and
  \<open>moments \<ge> 1\<close>; with \<open>moments \<le> 1\<close> or \<open>order \<le> 1\<close> it is empty.
\<close>

theorem second_order_features:
  assumes cols: "length X = 3" and rows: "\<forall>x\<in>set X. length x = n"
    and bank: "order self \<le> int (length Psi)"
    and sq: "\<forall>psi\<in>set Psi. length psi = n \<and> (\<forall>row\<in>set psi. length row = n)"
  shows "\<exists>F. get_second_order_features self Psi X = Inr F \<and>
           scalars F =
             concat (map (\<lambda>x. concat (map (\<lambda>(i, j).
                       map (\<lambda>q. (\<Sum>a\<leftarrow>matvec (Psi ! j) (map abs (matvec (Psi ! i) (map abs x))). \<bar>a\<bar> ^ q))
                         [1..<nat (moments self)])
                     (upper_pairs (nat (order self))))) X) \<and>
           set (upper_pairs (nat (order self))) = {(i, j). i < j \<and> j < nat (order self)} \<and>
           length (scalars F)
             = 3 * (nat (order self) * (nat (order self) - 1) div 2) * nat (moments self - 1) \<and>
           (0 \<le> order self \<and> 1 \<le> moments self \<longrightarrow>
              int (length (scalars F))
                = 3 * (order self * (order self - 1) div 2) * (moments self - 1))"
proof -
  let ?o = "nat (order self)"
  let ?M = "\<lambda>x i j. map (\<lambda>q. (\<Sum>a\<leftarrow>matvec (Psi ! j) (map abs (matvec (Psi ! i) x)). \<bar>a\<bar> ^ q))
                 [1..<nat (moments self)]"
  let ?R = "\<lambda>x. map (\<lambda>i. map (\<lambda>j. ?M x i j) [Suc i..<?o]) [0..<?o - 1]"
  let ?X = "map (map abs) X"
  let ?body = "\<lambda>col. let x = map abs (?X ! col)
                 in for_each
                      (\<lambda>i. for_each
                             (\<lambda>j. on_success (cascade Psi x i j)
                                    (\<lambda>filtered_x. Inr (moment_sums (map abs filtered_x)
                                                          (py_range 1 (moments self)))))
                             (py_range (i + 1) (order self)))
                      (py_range 0 (order self - 1))"
  from bank have bank': "?o \<le> length Psi" by linarith
  have sq': "\<And>psi. psi \<in> set Psi \<Longrightarrow> length psi = n \<and> (\<forall>row\<in>set psi. length row = n)"
    using sq by blast
  have "for_each ?body [0..<length ?X] = Inr (map (\<lambda>col. ?R (map abs (?X ! col))) [0..<length ?X])"
  proof (rule for_each_Inr_map)
    fix col assume "col \<in> set [0..<length ?X]"
    then have "col < length X" by simp
    with rows have "length (map abs (?X ! col)) = n" by simp
    from second_order_column [OF bank' sq' this]
    show "?body col = Inr (?R (map abs (?X ! col)))" by (simp add: Let_def)
  qed
  also have "map (\<lambda>col. ?R (map abs (?X ! col))) [0..<length ?X] = map (\<lambda>x. ?R (map abs x)) ?X"
    by (rule map_columns)
  also have "\<dots> = map (\<lambda>x. ?R (map abs x)) X"
    by (simp add: comp_def)
  finally have loops: "for_each ?body [0..<length ?X] = Inr (map (\<lambda>x. ?R (map abs x)) X)" .
  define F where
    "F = reshape_row (concat (map (\<lambda>b. concat (map concat b)) (map (\<lambda>x. ?R (map abs x)) X)))"
  have res: "get_second_order_features self Psi X = Inr F"
    unfolding get_second_order_features_def Let_def F_def using loops
    by (simp add: Let_def)
  have flat: "\<And>x. concat (map concat (?R x)) = concat (map (\<lambda>(i, j). ?M x i j) (upper_pairs ?o))"
    by (rule pairs_flatten)
  have sc: "scalars F = concat (map (\<lambda>x. concat (map (\<lambda>(i, j). ?M (map abs x) i j) (upper_pairs ?o))) X)"
  proof -
    have "scalars F = concat (map (\<lambda>x. concat (map concat (?R (map abs x)))) X)"
      by (simp only: F_def scalars_reshape_row map_map comp_def)
    then show ?thesis by (simp only: flat)
  qed
  have per_pair: "\<And>x. length (concat (map (\<lambda>(i, j). ?M x i j) (upper_pairs ?o)))
      = length (upper_pairs ?o) * nat (moments self - 1)"
  proof -
    fix x
    have "length (concat (map (\<lambda>(i, j). ?M x i j) (upper_pairs ?o)))
        = length (map (\<lambda>(i, j). ?M x i j) (upper_pairs ?o)) * nat (moments self - 1)"
      by (rule length_concat_uniform) (auto simp: nat_diff_distrib')
    then show "length (concat (map (\<lambda>(i, j). ?M x i j) (upper_pairs ?o)))
        = length (upper_pairs ?o) * nat (moments self - 1)" by simp
  qed
  have "length (scalars F)
      = length (map (\<lambda>x. concat (map (\<lambda>(i, j). ?M (map abs x) i j) (upper_pairs ?o))) X)
          * (length (upper_pairs ?o) * nat (moments self - 1))"
    unfolding sc
  proof (rule length_concat_uniform)
    fix y
    assume "y \<in> set (map (\<lambda>x. concat (map (\<lambda>(i, j). ?M (map abs x) i j) (upper_pairs ?o))) X)"
    then obtain x where "y = concat (map (\<lambda>(i, j). ?M (map abs x) i j) (upper_pairs ?o))"
      unfolding set_map by blast
    then show "length y = length (upper_pairs ?o) * nat (moments self - 1)"
      by (simp only: per_pair)
  qed
  with cols have len: "length (scalars F) = 3 * (?o * (?o - 1) div 2) * nat (moments self - 1)"
    by (simp add: length_upper_pairs)
  have int_len: "0 \<le> order self \<and> 1 \<le> moments self \<longrightarrow>
      int (length (scalars F)) = 3 * (order self * (order self - 1) div 2) * (moments self - 1)"
    unfolding len using pair_count_int [of "order self" "moments self"] by blast
  from res sc len int_len set_upper_pairs [of ?o] show ?thesis by blast
qed

theorem second_order_features_witness:
  "\<exists>F. get_second_order_features (init 2 2) example_bank example_features = Inr F \<and>
       scalars F = [3, 7, 11]"
proof -
  have "length example_features = 3" "\<forall>x\<in>set example_features. length x = 2"
    "order (init 2 2) \<le> int (length example_bank)"
    "\<forall>psi\<in>set example_bank. length psi = 2 \<and> (\<forall>row\<in>set psi. length row = 2)"
    by (simp_all add: example_features_def example_bank_def init_def)
  from second_order_features [OF this]
  show ?thesis
    by (simp add: init_def upper_pairs_def example_bank_def example_features_def matvec_def
        upt_rec) blast
qed

text \<open>
  The count of claim C2 fails for \<open>moments = 0\<close>, which the constructor accepts: with
  \<open>order = 2\<close> the block is empty, where the formula gives \<open>-3\<close>.
\<close>

theorem second_order_count_without_moments:
  "get_second_order_features (init 2 0) example_bank example_features = Inr (reshape_row []) \<and>
   int (length (scalars (reshape_row [])))
     \<noteq> 3 * (order (init 2 0) * (order (init 2 0) - 1) div 2) * (moments (init 2 0) - 1)"
  by (simp add: get_second_order_features_def init_def example_bank_def example_features_def
      py_range_def upto.simps cascade_def py_index_def dot_vector_def matvec_def
      moment_sums_def)

subsection \<open>The length of the feature vector\<close>

lemma for_each_blocks_length:
  assumes "for_each f xs = Inr ys"
    and "\<And>x y. x \<in> set xs \<Longrightarrow> f x = Inr y \<Longrightarrow> length (G y) = h x"
  shows "length (concat (map G ys)) = sum_list (map h xs)"
  using assms
proof (induction xs arbitrary: ys)
  case Nil
  then show ?case by simp
next
  case (Cons x xs)
  from Cons.prems(1) obtain y zs where y: "f x = Inr y" and zs: "for_each f xs = Inr zs"
    and ys: "ys = y # zs"
    by (auto split: sum.splits)
  have "length (concat (map G zs)) = sum_list (map h xs)"
    by (rule Cons.IH [OF zs]) (simp add: Cons.prems(2))
  moreover have "length (G y) = h x" by (rule Cons.prems(2) [OF _ y]) simp
  ultimately show ?case by (simp add: ys)
qed

lemma length_calculate_wavelets: "length (calculate_wavelets self A_hat) = nat (order self + 1)"
  by (simp add: calculate_wavelets_def)

lemma first_order_length:
  assumes "get_first_order_features self Psi X = Inr F"
  shows "\<exists>fs. F = reshape_row fs \<and> length fs = length X * (length Psi * nat (moments self - 1))"
proof -
  let ?X = "map (map abs) X"
  let ?inner = "\<lambda>x psi. on_success (dot_vector psi x)
                  (\<lambda>filtered_x. Inr (moment_sums (map abs filtered_x) (py_range 1 (moments self))))"
  let ?body = "\<lambda>col. for_each (?inner (map abs (?X ! col))) Psi"
  from assms obtain blocks where blocks: "for_each ?body [0..<length ?X] = Inr blocks"
    and F: "F = reshape_row (concat (map concat blocks))"
    by (auto simp: get_first_order_features_def Let_def on_success_eq_Inr)
  have col: "length (concat b) = length Psi * nat (moments self - 1)"
    if "?body c = Inr b" for c b
  proof -
    have "length (concat (map (\<lambda>y. y) b)) = sum_list (map (\<lambda>psi. nat (moments self - 1)) Psi)"
      using that by (rule for_each_blocks_length) (auto simp: on_success_eq_Inr)
    then show ?thesis by (simp add: sum_list_triv)
  qed
  have "length (concat (map concat blocks))
      = sum_list (map (\<lambda>c. length Psi * nat (moments self - 1)) [0..<length ?X])"
    using blocks by (rule for_each_blocks_length) (rule col)
  then have "length (concat (map concat blocks)) = length X * (length Psi * nat (moments self - 1))"
    by (simp add: sum_list_triv)
  with F show ?thesis by blast
qed

lemma pair_count_ranges:
  "(\<Sum>i\<leftarrow>py_range 0 (k - 1). length (py_range (i + 1) k) * m) = nat k * (nat k - 1) div 2 * m"
proof -
  have r0: "py_range 0 (k - 1) = map int [0..<nat k - 1]"
  proof -
    have "nat (k - 1) = nat k - 1" by arith
    with py_range_from_nat [of 0 "k - 1"] show ?thesis by simp
  qed
  have "(\<Sum>i\<leftarrow>py_range 0 (k - 1). length (py_range (i + 1) k) * m)
      = (\<Sum>i\<leftarrow>[0..<nat k - 1]. nat (k - (int i + 1)) * m)"
    by (simp add: r0 comp_def)
  also have "map (\<lambda>i. nat (k - (int i + 1)) * m) [0..<nat k - 1]
      = map (\<lambda>i. (nat k - Suc i) * m) [0..<nat k - 1]"
  proof (rule map_cong)
    fix i assume "i \<in> set [0..<nat k - 1]"
    have "nat (k - (int i + 1)) = nat k - Suc i" by arith
    then show "nat (k - (int i + 1)) * m = (nat k - Suc i) * m" by simp
  qed simp
  also have "(\<Sum>i\<leftarrow>[0..<nat k - 1]. (nat k - Suc i) * m)
      = (\<Sum>i\<leftarrow>[0..<nat k - 1]. nat k - Suc i) * m"
    by (simp add: sum_list_mult_const)
  also have "(\<Sum>i\<leftarrow>[0..<nat k - 1]. nat k - Suc i) = length (upper_pairs (nat k))"
    by (simp add: upper_pairs_loops [symmetric] length_concat comp_def)
  finally show ?thesis by (simp add: length_upper_pairs)
qed

lemma second_order_length:
  assumes "get_second_order_features self Psi X = Inr F"
  shows "\<exists>fs. F = reshape_row fs \<and>
           length fs = length X * (nat (order self) * (nat (order self) - 1) div 2
                                    * nat (moments self - 1))"
proof -
  let ?X = "map (map abs) X"
  let ?m = "nat (moments self - 1)"
  let ?pair = "\<lambda>x i j. on_success (cascade Psi x i j)
                  (\<lambda>filtered_x. Inr (moment_sums (map abs filtered_x) (py_range 1 (moments self))))"
  let ?row = "\<lambda>x i. for_each (?pair x i) (py_range (i + 1) (order self))"
  let ?body = "\<lambda>col. for_each (?row (map abs (?X ! col))) (py_range 0 (order self - 1))"
  from assms obtain blocks where blocks: "for_each ?body [0..<length ?X] = Inr blocks"
    and F: "F = reshape_row (concat (map (\<lambda>b. concat (map concat b)) blocks))"
    by (auto simp: get_second_order_features_def Let_def on_success_eq_Inr)
  have row: "length (concat bi) = length (py_range (i + 1) (order self)) * ?m"
    if "?row x i = Inr bi" for x i bi
  proof -
    have "length (concat (map (\<lambda>y. y) bi))
        = sum_list (map (\<lambda>j. ?m) (py_range (i + 1) (order self)))"
      using that by (rule for_each_blocks_length) (auto simp: on_success_eq_Inr)
    then show ?thesis by (simp add: sum_list_triv)
  qed
  have col: "length (concat (map concat b))
      = nat (order self) * (nat (order self) - 1) div 2 * ?m"
    if "?body c = Inr b" for c b
  proof -
    have "length (concat (map concat b))
        = (\<Sum>i\<leftarrow>py_range 0 (order self - 1). length (py_range (i + 1) (order self)) * ?m)"
      using that by (rule for_each_blocks_length) (rule row)
    then show ?thesis by (simp only: pair_count_ranges)
  qed
  have "length (concat (map (\<lambda>b. concat (map concat b)) blocks))
      = sum_list (map (\<lambda>c. nat (order self) * (nat (order self) - 1) div 2 * ?m) [0..<length ?X])"
    using blocks by (rule for_each_blocks_length) (rule col)
  then have "length (concat (map (\<lambda>b. concat (map concat b)) blocks))
      = length X * (nat (order self) * (nat (order self) - 1) div 2 * ?m)"
    by (simp add: sum_list_triv)
  with F show ?thesis by blast
qed

lemma node_feature_columns:
  "create_node_feature_matrix g = Inr X \<Longrightarrow> length X = 3"
  by (auto simp: create_node_feature_matrix_def split: sum.splits)

lemma concatenate_rows:
  "concatenate_axis1 [reshape_row a, reshape_row b, reshape_row c] = reshape_row (a @ b @ c)"
  by (simp add: concatenate_axis1_def reshape_row_def)

lemma K2_features:
  "create_node_feature_matrix K2 = Inr [[ln 2, ln 2], [1, 1], [0, 0]]"
  by (simp add: create_node_feature_matrix_def degree_call_def eccentricity_def clustering_def
      single_source_shortest_path_length_def bfs_levels.simps next_level_def
      number_of_nodes_def nodes_def neighbors_def K2_def upt_rec)

lemma calculate_geoscattering_parts:
  assumes "calculate_geoscattering self g = Inr F"
  shows "\<exists>zs fs ss. F = reshape_row (zs @ fs @ ss) \<and>
           length zs = 3 * nat (order self) \<and>
           length fs = 3 * (nat (order self + 1) * nat (moments self - 1)) \<and>
           length ss = 3 * (nat (order self) * (nat (order self) - 1) div 2
                             * nat (moments self - 1))"
proof -
  from assms obtain A_hat X F1 F2 where A: "get_normalized_adjacency g = Inr A_hat"
    and X: "create_node_feature_matrix g = Inr X"
    and F1: "get_first_order_features self (calculate_wavelets self A_hat) X = Inr F1"
    and F2: "get_second_order_features self (calculate_wavelets self A_hat) X = Inr F2"
    and F: "F = concatenate_axis1 [get_zero_order_features self X, F1, F2]"
    by (auto simp: calculate_geoscattering_def Let_def on_success_eq_Inr)
  from X have cols: "length X = 3" by (rule node_feature_columns)
  have z: "get_zero_order_features self X = reshape_row (scalars (get_zero_order_features self X))"
    by (simp add: get_zero_order_features_def Let_def)
  have zl: "length (scalars (get_zero_order_features self X)) = 3 * nat (order self)"
  proof -
    have "length (scalars (get_zero_order_features self X))
        = length (map (\<lambda>x. map (\<lambda>q. (\<Sum>a\<leftarrow>x. \<bar>a\<bar> ^ q)) [1..<nat (order self) + 1]) X)
            * nat (order self)"
      unfolding zero_order_scalars by (rule length_concat_uniform) auto
    with cols show ?thesis by simp
  qed
  from first_order_length [OF F1] cols obtain fs where fs: "F1 = reshape_row fs"
    "length fs = 3 * (nat (order self + 1) * nat (moments self - 1))"
    by (auto simp: length_calculate_wavelets)
  from second_order_length [OF F2] cols obtain ss where ss: "F2 = reshape_row ss"
    "length ss = 3 * (nat (order self) * (nat (order self) - 1) div 2 * nat (moments self - 1))"
    by auto
  have "F = reshape_row (scalars (get_zero_order_features self X) @ fs @ ss)"
    unfolding F fs(1) ss(1) by (subst z) (rule concatenate_rows)
  with zl fs(2) ss(2) show ?thesis by blast
qed

lemma feature_count_int:
  assumes "0 \<le> (k::int)" and "1 \<le> (m::int)"
  shows "int (3 * nat k + 3 * (nat (k + 1) * nat (m - 1))
              + 3 * (nat k * (nat k - 1) div 2 * nat (m - 1)))
         = 3 * k + 3 * (k + 1) * (m - 1) + 3 * (k * (k - 1) div 2) * (m - 1)"
proof -
  have "int (3 * (nat k * (nat k - 1) div 2) * nat (m - 1)) = 3 * (k * (k - 1) div 2) * (m - 1)"
    using assms by (rule pair_count_int)
  moreover have "int (3 * nat k) = 3 * k" using assms by simp
  moreover have "int (3 * (nat (k + 1) * nat (m - 1))) = 3 * (k + 1) * (m - 1)"
    using assms by simp
  ultimately show ?thesis by (simp add: mult.assoc)
qed

lemma K2_wavelets:
  "calculate_wavelets (init 1 m) [[1/2, 1/2], [1/2, 1/2]]
     = [[[1/4, 1/4], [1/4, 1/4]], [[3/16, 3/16], [3/16, 3/16]]]"
  by (simp add: calculate_wavelets_def init_def py_range_def sp_sub_def sp_power_def
      upto.simps power_divide)

lemma K2_first_order:
  "get_first_order_features (init 1 2) [[[1/4, 1/4], [1/4, 1/4]], [[3/16, 3/16], [3/16, 3/16]]]
     [[ln 2, ln 2], [1, 1], [0, 0]]
   = Inr (reshape_row [ln 2, 3 * ln 2 / 4, 1, 3 / 4, 0, 0])"
  by (simp add: get_first_order_features_def init_def dot_vector_def matvec_def
      moment_sums_def py_range_def upto.simps upt_rec)

lemma K2_second_order:
  "get_second_order_features (init 1 m) Psi [[ln 2, ln 2], [1, 1], [0, 0]] = Inr (reshape_row [])"
  by (simp add: get_second_order_features_def init_def py_range_def upto.simps upt_rec)

lemma K2_geoscattering:
  "calculate_geoscattering (init 1 2) K2
     = Inr (reshape_row ([\<bar>ln 2\<bar> + \<bar>ln 2\<bar>, 2, 0] @ [ln 2, 3 * ln 2 / 4, 1, 3 / 4, 0, 0] @ []))"
proof -
  have z: "get_zero_order_features (init 1 2) [[ln 2, ln 2], [1, 1], [0, 0]]
      = reshape_row [\<bar>ln 2\<bar> + \<bar>ln 2\<bar>, 2, 0]"
    by (simp add: get_zero_order_features_def init_def moment_sums_def py_range_def
        upto.simps upt_rec)
  show ?thesis
    unfolding calculate_geoscattering_def
    by (simp only: K2_operator K2_features K2_wavelets K2_first_order K2_second_order z
        on_success_Inr Let_def concatenate_rows)
qed

text \<open>
  The length of claim C4 fails for \<open>moments = 0\<close>, which the constructor accepts: on
  the graph with two nodes and one edge, with \<open>order = 1\<close>, the vector has the three
  zero-order numbers, where the formula gives \<open>3 - 6 + 0 = -3\<close>.
\<close>

theorem feature_vector_length_without_moments:
  "map_sum id shape (calculate_geoscattering (init 1 0) K2) = Inr [1, 3] \<and>
   (3::int) \<noteq> 3 * order (init 1 0) + 3 * (order (init 1 0) + 1) * (moments (init 1 0) - 1)
               + 3 * (order (init 1 0) * (order (init 1 0) - 1) div 2) * (moments (init 1 0) - 1)"
proof -
  have z: "get_zero_order_features (init 1 0) [[ln 2, ln 2], [1, 1], [0, 0]]
      = reshape_row [\<bar>ln 2\<bar> + \<bar>ln 2\<bar>, 2, 0]"
    by (simp add: get_zero_order_features_def init_def moment_sums_def py_range_def
        upto.simps upt_rec)
  have f: "get_first_order_features (init 1 0) (calculate_wavelets (init 1 0) [[1/2, 1/2], [1/2, 1/2]])
       [[ln 2, ln 2], [1, 1], [0, 0]] = Inr (reshape_row [])"
    unfolding K2_wavelets
    by (simp add: get_first_order_features_def init_def dot_vector_def
        moment_sums_def py_range_def upto.simps upt_rec)
  have "calculate_geoscattering (init 1 0) K2
      = Inr (reshape_row ([\<bar>ln 2\<bar> + \<bar>ln 2\<bar>, 2, 0] @ [] @ []))"
    unfolding calculate_geoscattering_def
    by (simp only: K2_operator K2_features f K2_second_order z on_success_Inr Let_def
        concatenate_rows)
  then show ?thesis by (simp add: init_def)
qed

subsection \<open>The embedding matrix\<close>

lemma for_each_selection:
  "(\<And>i. i \<in> set p \<Longrightarrow> f (h i) = Inr (r i)) \<Longrightarrow> for_each f (map h p) = Inr (map r p)"
  by (induction p) simp_all

lemma check_graphs_ok:
  "check_graphs graphs = Inr u \<longleftrightarrow> graphs \<noteq> [] \<and> (\<forall>g\<in>set graphs. contiguous g)"
  by (auto simp: check_graphs_def)

text \<open>
  Claim C3, as the source has it. After a call of \<^verbatim>\<open>fit\<close> that completed on \<open>G\<close> graphs,
  \<^verbatim>\<open>get_embedding\<close> returns an array of \<open>G\<close> entries; entry \<open>i\<close> is the feature array
  computed from graph \<open>i\<close> alone, a matrix of one row, so that the shape of the result is
  \<open>(G, 1, F)\<close>. Fitting any selection of the graphs in any order, a permutation in
  particular, returns the same entries in that order.
\<close>

theorem embedding_rows:
  assumes "fit self graphs = Inr self'"
  shows "\<exists>rows. get_embedding self' = Inr (Array rows) \<and>
           length rows = length graphs \<and>
           (\<forall>i<length graphs. calculate_geoscattering self (graphs ! i) = Inr (rows ! i)) \<and>
           shape (Array rows)
             = [length graphs, 1,
                3 * nat (order self) + 3 * (nat (order self + 1) * nat (moments self - 1))
                + 3 * (nat (order self) * (nat (order self) - 1) div 2
                       * nat (moments self - 1))] \<and>
           (\<forall>p. p \<noteq> [] \<and> set p \<subseteq> {..<length graphs} \<longrightarrow>
                fit_then_get_embedding self (map (\<lambda>i. graphs ! i) p)
                  = Inr (Array (map (\<lambda>i. rows ! i) p)))"
proof -
  from assms obtain rows where chk: "check_graphs graphs = Inr ()"
    and rows: "for_each (calculate_geoscattering self) graphs = Inr rows"
    and self': "self' = self\<lparr>embedding := Some rows\<rparr>"
    by (auto simp: fit_result)
  have get: "get_embedding self' = Inr (Array rows)"
    by (simp add: get_embedding_def self')
  have len: "length rows = length graphs"
    using rows by (rule for_each_length)
  have nth: "\<And>i. i < length graphs \<Longrightarrow> calculate_geoscattering self (graphs ! i) = Inr (rows ! i)"
    using rows by (rule for_each_nth)
  from chk have ne: "graphs \<noteq> []" and cont: "\<forall>g\<in>set graphs. contiguous g"
    by (simp_all add: check_graphs_ok)
  from ne len obtain r rest where rr: "rows = r # rest" by (cases rows) auto
  from ne nth [of 0] rr have "calculate_geoscattering self (graphs ! 0) = Inr r" by simp
  from calculate_geoscattering_parts [OF this]
  have "shape r = [1, 3 * nat (order self) + 3 * (nat (order self + 1) * nat (moments self - 1))
                + 3 * (nat (order self) * (nat (order self) - 1) div 2
                       * nat (moments self - 1))]"
    by auto
  with rr len have sh: "shape (Array rows)
             = [length graphs, 1,
                3 * nat (order self) + 3 * (nat (order self + 1) * nat (moments self - 1))
                + 3 * (nat (order self) * (nat (order self) - 1) div 2
                       * nat (moments self - 1))]"
    by simp
  have perm: "fit_then_get_embedding self (map (\<lambda>i. graphs ! i) p)
                  = Inr (Array (map (\<lambda>i. rows ! i) p))"
    if p: "p \<noteq> []" "set p \<subseteq> {..<length graphs}" for p
  proof -
    from p cont have "check_graphs (map (\<lambda>i. graphs ! i) p) = Inr ()"
      by (auto simp: check_graphs_ok)
    moreover have "for_each (calculate_geoscattering self) (map (\<lambda>i. graphs ! i) p)
        = Inr (map (\<lambda>i. rows ! i) p)"
      using p(2) by (intro for_each_selection nth) auto
    ultimately show ?thesis
      by (simp add: fit_then_get_embedding_def fit_def get_embedding_def)
  qed
  from get len nth sh perm show ?thesis by blast
qed

lemma cycle4_operator:
  "get_normalized_adjacency cycle4
     = Inr [[1/2, 1/4, 0, 1/4], [1/4, 1/2, 1/4, 0], [0, 1/4, 1/2, 1/4], [1/4, 0, 1/4, 1/2]]"
  by (simp add: get_normalized_adjacency_def adjacency_matrix_def create_D_inverse_def
      degree_lookup_def number_of_nodes_def nodes_def neighbors_def cycle4_def upt_rec
      coo_diagonal_def sp_scale_def sp_add_def sp_identity_def sp_dot_def ncols_def
      round_double_one round_double_half)

lemma cycle4_features:
  "create_node_feature_matrix cycle4 = Inr [[ln 3, ln 3, ln 3, ln 3], [2, 2, 2, 2], [0, 0, 0, 0]]"
  by (simp add: create_node_feature_matrix_def degree_call_def eccentricity_def clustering_def
      single_source_shortest_path_length_def bfs_levels.simps next_level_def
      number_of_nodes_def nodes_def neighbors_def cycle4_def upt_rec)

subsection \<open>What the pipeline accepts\<close>

definition square :: "nat \<Rightarrow> matrix \<Rightarrow> bool" where
  "square n M \<longleftrightarrow> length M = n \<and> (\<forall>row\<in>set M. length row = n)"

lemma elementwise_difference:
  "sp_sub (sp_power A k) (sp_power A l) = map (map (\<lambda>a. a ^ k - a ^ l)) A"
  by (simp add: sp_sub_def sp_power_def map2_map_map)

lemma square_elementwise:
  "square n A \<Longrightarrow> square n (sp_sub (sp_power A k) (sp_power A l))"
  by (simp add: elementwise_difference square_def)

lemma square_wavelets:
  "square n A_hat \<Longrightarrow> psi \<in> set (calculate_wavelets self A_hat) \<Longrightarrow> square n psi"
  by (auto simp: calculate_wavelets_def square_elementwise)

lemma square_operator:
  assumes "get_normalized_adjacency g = Inr A_hat"
  shows "square (number_of_nodes g) A_hat"
proof -
  let ?n = "number_of_nodes g"
  from assms obtain A D where A: "adjacency_matrix g [0..<?n] = Inr A"
    and D: "create_D_inverse g = Inr D"
    and A_hat: "A_hat = sp_scale (1/2) (sp_add (sp_identity ?n) (sp_dot D A))"
    by (auto simp: get_normalized_adjacency_def split: sum.splits)
  from A have A': "A = map (\<lambda>u. map (\<lambda>v. if v \<in> set (neighbors g u) then 1 else 0) [0..<?n]) [0..<?n]"
    by (auto simp: adjacency_matrix_def split: if_splits)
  from D obtain values' where v: "for_each
             (\<lambda>node. case degree_lookup g node of
                        Inl e \<Rightarrow> Inl e
                      | Inr d \<Rightarrow> if d = 0 then Inl ZeroDivisionError
                                else Inr (round_double (1 / real d)))
             [0..<?n] = Inr values'" and D': "D = coo_diagonal values'"
    by (auto simp: create_D_inverse_def split: sum.splits)
  from v have lv: "length values' = ?n" by (auto dest: for_each_length)
  have nc: "ncols A = ?n"
    by (cases "?n") (simp_all add: A' ncols_def upt_conv_Cons del: upt_Suc)
  have "length A_hat = ?n"
    by (simp add: A_hat sp_scale_def sp_add_def sp_identity_def sp_dot_def D' coo_diagonal_def lv)
  moreover have "length row = ?n" if "row \<in> set A_hat" for row
    using that
    by (auto simp: A_hat sp_scale_def sp_add_def sp_identity_def sp_dot_def D' coo_diagonal_def
        lv nc in_set_zip)
  ultimately show ?thesis by (simp add: square_def)
qed

lemma node_feature_rows:
  assumes "create_node_feature_matrix g = Inr X"
  shows "\<forall>x\<in>set X. length x = number_of_nodes g"
proof -
  from assms obtain a b c where X: "X = [a, b, c]"
    and a: "for_each
             (\<lambda>node. case degree_call g node of
                        Inl e \<Rightarrow> Inl e
                      | Inr d \<Rightarrow> Inr (ln (real (d + 1))))
             [0..<number_of_nodes g] = Inr a"
    and b: "for_each
                  (\<lambda>node. case eccentricity g node of
                             Inl e \<Rightarrow> Inl e
                           | Inr d \<Rightarrow> Inr (real d))
                  [0..<number_of_nodes g] = Inr b"
    and c: "for_each (clustering g) [0..<number_of_nodes g] = Inr c"
    by (auto simp: create_node_feature_matrix_def split: sum.splits)
  from for_each_length [OF a] for_each_length [OF b] for_each_length [OF c]
  show ?thesis by (simp add: X)
qed

lemma first_order_ok:
  assumes "\<And>psi. psi \<in> set Psi \<Longrightarrow> square n psi" and "\<forall>x\<in>set X. length x = n"
  shows "\<exists>F. get_first_order_features self Psi X = Inr F"
proof -
  let ?X = "map (map abs) X"
  let ?g = "\<lambda>col. map (\<lambda>psi. moment_sums (map abs (matvec psi (map abs (?X ! col))))
                              (py_range 1 (moments self))) Psi"
  have "for_each
          (\<lambda>col. let x = map abs (?X ! col)
                 in for_each
                      (\<lambda>psi. on_success (dot_vector psi x)
                               (\<lambda>filtered_x. Inr (moment_sums (map abs filtered_x)
                                                     (py_range 1 (moments self)))))
                      Psi)
          [0..<length ?X] = Inr (map ?g [0..<length ?X])"
  proof (rule for_each_Inr_map)
    fix col assume "col \<in> set [0..<length ?X]"
    then have col: "length (map abs (?X ! col)) = n" using assms(2) by simp
    have "for_each
            (\<lambda>psi. on_success (dot_vector psi (map abs (?X ! col)))
                     (\<lambda>filtered_x. Inr (moment_sums (map abs filtered_x)
                                           (py_range 1 (moments self)))))
            Psi = Inr (?g col)"
    proof (rule for_each_Inr_map)
      fix psi assume "psi \<in> set Psi"
      then have "square n psi" by (rule assms(1))
      then have "dot_vector psi (map abs (?X ! col)) = Inr (matvec psi (map abs (?X ! col)))"
        using col by (intro dot_vector_ok) (simp add: square_def)
      then show "on_success (dot_vector psi (map abs (?X ! col)))
                     (\<lambda>filtered_x. Inr (moment_sums (map abs filtered_x)
                                           (py_range 1 (moments self))))
          = Inr (moment_sums (map abs (matvec psi (map abs (?X ! col)))) (py_range 1 (moments self)))"
        by simp
    qed
    then show "(let x = map abs (?X ! col)
                 in for_each
                      (\<lambda>psi. on_success (dot_vector psi x)
                               (\<lambda>filtered_x. Inr (moment_sums (map abs filtered_x)
                                                     (py_range 1 (moments self)))))
                      Psi) = Inr (?g col)"
      by (simp add: Let_def)
  qed
  then show ?thesis
    by (simp add: get_first_order_features_def Let_def)
qed

lemma for_each_all_ok:
  "(\<And>x. x \<in> set xs \<Longrightarrow> \<exists>y. f x = Inr y) \<Longrightarrow> \<exists>ys. for_each f xs = Inr ys"
proof (induction xs)
  case Nil
  show ?case by simp
next
  case (Cons x xs)
  from Cons.prems [of x] obtain y where y: "f x = Inr y" by auto
  from Cons.IH Cons.prems obtain ys where "for_each f xs = Inr ys" by auto
  with y show ?case by simp
qed

lemma second_order_total:
  assumes rows: "\<forall>x\<in>set X. length x = n"
    and bank: "order self \<le> int (length Psi)"
    and sq: "\<forall>psi\<in>set Psi. length psi = n \<and> (\<forall>row\<in>set psi. length row = n)"
  shows "\<exists>F. get_second_order_features self Psi X = Inr F"
proof -
  let ?X = "map (map abs) X"
  let ?body = "\<lambda>col. let x = map abs (?X ! col)
                 in for_each
                      (\<lambda>i. for_each
                             (\<lambda>j. on_success (cascade Psi x i j)
                                    (\<lambda>filtered_x. Inr (moment_sums (map abs filtered_x)
                                                          (py_range 1 (moments self)))))
                             (py_range (i + 1) (order self)))
                      (py_range 0 (order self - 1))"
  from bank have bank': "nat (order self) \<le> length Psi" by linarith
  have sq': "\<And>psi. psi \<in> set Psi \<Longrightarrow> length psi = n \<and> (\<forall>row\<in>set psi. length row = n)"
    using sq by blast
  have "\<exists>b. ?body col = Inr b" if "col \<in> set [0..<length ?X]" for col
  proof -
    from that have "col < length X" by simp
    with rows have "length (map abs (?X ! col)) = n" by simp
    from second_order_column [OF bank' sq' this] show ?thesis by (simp add: Let_def)
  qed
  then have "\<exists>blocks. for_each ?body [0..<length ?X] = Inr blocks"
    by (rule for_each_all_ok)
  then obtain blocks where "for_each ?body [0..<length ?X] = Inr blocks" ..
  then show ?thesis
    by (simp add: get_second_order_features_def Let_def)
qed

lemma geoscattering_accepts:
  assumes A: "get_normalized_adjacency g = Inr A_hat"
    and X: "create_node_feature_matrix g = Inr X"
  shows "\<exists>F. calculate_geoscattering self g = Inr F"
proof -
  let ?n = "number_of_nodes g"
  let ?Psi = "calculate_wavelets self A_hat"
  have sq: "\<And>psi. psi \<in> set ?Psi \<Longrightarrow> square ?n psi"
    using square_operator [OF A] by (rule square_wavelets)
  have rows: "\<forall>x\<in>set X. length x = ?n" using X by (rule node_feature_rows)
  have cols: "length X = 3" using X by (rule node_feature_columns)
  from first_order_ok [OF sq rows] obtain F1
    where F1: "get_first_order_features self ?Psi X = Inr F1" by blast
  have "order self \<le> int (length ?Psi)"
    by (simp add: length_calculate_wavelets)
  moreover have "\<forall>psi\<in>set ?Psi. length psi = ?n \<and> (\<forall>row\<in>set psi. length row = ?n)"
    using sq by (simp add: square_def)
  ultimately obtain F2 where F2: "get_second_order_features self ?Psi X = Inr F2"
    using second_order_total [OF rows] by blast
  show ?thesis
    by (simp add: calculate_geoscattering_def A X F1 F2 Let_def)
qed

lemma contiguous_examples: "contiguous K2" "contiguous cycle4"
  by (simp_all add: contiguous_def K2_def cycle4_def nodes_def number_of_nodes_def upt_rec
      eval_nat_numeral)

theorem embedding_rows_witness:
  "\<exists>rows. fit_then_get_embedding (init 1 2) [K2, cycle4] = Inr (Array rows) \<and>
          shape (Array rows) = [2, 1, 9] \<and>
          fit_then_get_embedding (init 1 2) [cycle4, K2] = Inr (Array (rev rows))"
proof -
  from geoscattering_accepts [OF cycle4_operator cycle4_features]
  obtain F where F: "calculate_geoscattering (init 1 2) cycle4 = Inr F" ..
  have fit: "fit (init 1 2) [K2, cycle4]
      = Inr ((init 1 2)\<lparr>embedding := Some [reshape_row ([\<bar>ln 2\<bar> + \<bar>ln 2\<bar>, 2, 0] @ [ln 2, 3 * ln 2 / 4, 1, 3 / 4, 0, 0] @ []), F]\<rparr>)"
    by (simp add: fit_def check_graphs_def K2_geoscattering F contiguous_examples)
  from embedding_rows [OF fit] obtain rows
    where get: "get_embedding ((init 1 2)\<lparr>embedding := Some [reshape_row ([\<bar>ln 2\<bar> + \<bar>ln 2\<bar>, 2, 0] @ [ln 2, 3 * ln 2 / 4, 1, 3 / 4, 0, 0] @ []), F]\<rparr>) = Inr (Array rows)"
      and len: "length rows = length [K2, cycle4]"
      and sh: "shape (Array rows) = [length [K2, cycle4], 1,
                3 * nat (order (init 1 2)) + 3 * (nat (order (init 1 2) + 1) * nat (moments (init 1 2) - 1))
                + 3 * (nat (order (init 1 2)) * (nat (order (init 1 2)) - 1) div 2
                       * nat (moments (init 1 2) - 1))]"
      and perm: "\<And>p. p \<noteq> [] \<and> set p \<subseteq> {..<length [K2, cycle4]} \<Longrightarrow>
                fit_then_get_embedding (init 1 2) (map (\<lambda>i. [K2, cycle4] ! i) p)
                  = Inr (Array (map (\<lambda>i. rows ! i) p))"
    by blast
  from len obtain a b where rows: "rows = [a, b]"
    by (cases rows; cases "tl rows") auto
  from perm [of "[1, 0]"] rows
  have p: "fit_then_get_embedding (init 1 2) [cycle4, K2] = Inr (Array (rev rows))"
    by simp
  from fit get have "fit_then_get_embedding (init 1 2) [K2, cycle4] = Inr (Array rows)"
    by (simp add: fit_then_get_embedding_def)
  moreover from sh have "shape (Array rows) = [2, 1, 9]" by (simp add: init_def)
  ultimately show ?thesis using p by blast
qed

text \<open>
  Claim C3 has the result a \<open>G \<times> F\<close> matrix. On the collection of the one graph with two
  nodes and an edge, with \<open>order = 1\<close> and \<open>moments = 2\<close> (so \<open>G = 1\<close>, \<open>F = 9\<close>), the
  array returned has the shape \<open>(1, 1, 9)\<close>: each entry is the \<open>1 \<times> 9\<close> matrix that
  \<^verbatim>\<open>reshape(1, -1)\<close> and the concatenation along axis 1 produce.
\<close>

theorem embedding_is_three_dimensional:
  "map_sum id shape (fit_then_get_embedding (init 1 2) [K2]) = Inr [1, 1, 9] \<and>
   map_sum id shape (fit_then_get_embedding (init 1 2) [K2]) \<noteq> Inr [length [K2], 9]"
proof -
  have "fit (init 1 2) [K2]
      = Inr ((init 1 2)\<lparr>embedding := Some [reshape_row ([\<bar>ln 2\<bar> + \<bar>ln 2\<bar>, 2, 0] @ [ln 2, 3 * ln 2 / 4, 1, 3 / 4, 0, 0] @ [])]\<rparr>)"
    by (simp add: fit_def check_graphs_def K2_geoscattering contiguous_examples)
  then show ?thesis
    by (simp add: fit_then_get_embedding_def get_embedding_def)
qed

subsection \<open>Graphs with a node of degree zero\<close>

lemma contiguous_lookup:
  assumes "contiguous g" and "v < number_of_nodes g"
  shows "\<exists>ns. map_of g v = Some ns"
proof -
  from assms have "v \<in> set (nodes g)" by (simp add: contiguous_def)
  then have "v \<in> fst ` set g" by (simp add: nodes_def)
  then have "map_of g v \<noteq> None" by (simp add: map_of_eq_None_iff)
  then show ?thesis by blast
qed

lemma contiguous_node_iff:
  "contiguous g \<Longrightarrow> v \<in> set (nodes g) \<longleftrightarrow> v < number_of_nodes g"
  by (simp add: contiguous_def)

lemma adjacency_matrix_contiguous:
  assumes "contiguous g" and "g \<noteq> []"
  shows "adjacency_matrix g [0..<number_of_nodes g]
           = Inr (map (\<lambda>u. map (\<lambda>v. if v \<in> set (neighbors g u) then 1 else 0)
                              [0..<number_of_nodes g])
                    [0..<number_of_nodes g])"
  using assms by (simp add: adjacency_matrix_def number_of_nodes_def contiguous_def)

lemma create_D_inverse_degree_zero:
  assumes c: "contiguous g" and z: "\<exists>v\<in>set (nodes g). degree_lookup g v = Inr 0"
  shows "create_D_inverse g = Inl ZeroDivisionError"
proof -
  let ?f = "\<lambda>node. case degree_lookup g node of
                        Inl e \<Rightarrow> Inl e
                      | Inr d \<Rightarrow> if d = 0 then Inl ZeroDivisionError
                                else Inr (round_double (1 / real d))"
  from z obtain v where v: "v \<in> set (nodes g)" "degree_lookup g v = Inr 0" by blast
  from v(1) c have "v \<in> set [0..<number_of_nodes g]" by (simp add: contiguous_node_iff)
  moreover from v(2) have "?f v = Inl ZeroDivisionError" by simp
  moreover have "e' = ZeroDivisionError"
    if "y \<in> set [0..<number_of_nodes g]" "?f y = Inl e'" for y e'
  proof -
    from that(1) c obtain ns where "map_of g y = Some ns"
      using contiguous_lookup [of g y] by auto
    then obtain d where "degree_lookup g y = Inr d" by (simp add: degree_lookup_def)
    with that(2) show ?thesis by (simp split: if_splits)
  qed
  ultimately have "for_each ?f [0..<number_of_nodes g] = Inl ZeroDivisionError"
    by (rule for_each_only_error)
  then show ?thesis by (simp add: create_D_inverse_def)
qed

lemma fit_fails_with_graph:
  assumes "g \<in> set graphs" and "calculate_geoscattering self g = Inl e"
  shows "\<exists>e'. fit self graphs = Inl e'"
proof (cases "check_graphs graphs")
  case (Inl e')
  then show ?thesis by (simp add: fit_def)
next
  case (Inr u)
  from for_each_Inl [of g graphs "calculate_geoscattering self" e, OF assms] obtain e' where
    "for_each (calculate_geoscattering self) graphs = Inl e'" by blast
  with Inr show ?thesis by (simp add: fit_def)
qed

text \<open>
  Claim C8, as the source has it. For a graph with node labels \<open>0..n-1\<close> and a node of
  degree zero the construction of the normalized operator raises the division error, and
  so does the computation of the features of the graph. A batch that passes the validation
  and in which every graph before this one is processed without an exception raises the
  division error at this graph; otherwise the exception of the earlier graph is what the
  batch raises. In every case a batch that contains the graph raises, so that no embedding
  is stored.
\<close>

theorem degree_zero_aborts:
  assumes "contiguous g" and "\<exists>v\<in>set (nodes g). degree_lookup g v = Inr 0"
  shows "get_normalized_adjacency g = Inl DegreeZeroError \<and>
         calculate_geoscattering self g = Inl DegreeZeroError \<and>
         (\<forall>pre post rows.
            check_graphs (pre @ g # post) = Inr () \<and>
            for_each (calculate_geoscattering self) pre = Inr rows \<longrightarrow>
            fit self (pre @ g # post) = Inl DegreeZeroError) \<and>
         (\<forall>graphs. g \<in> set graphs \<longrightarrow> (\<exists>e. fit self graphs = Inl e))"
proof -
  from assms(2) have "g \<noteq> []" by (auto simp: nodes_def)
  with assms(1) have "\<exists>A. adjacency_matrix g [0..<number_of_nodes g] = Inr A"
    by (simp add: adjacency_matrix_contiguous)
  then have op: "get_normalized_adjacency g = Inl DegreeZeroError"
    using create_D_inverse_degree_zero [OF assms]
    by (auto simp: get_normalized_adjacency_def)
  then have calc: "calculate_geoscattering self g = Inl DegreeZeroError"
    by (simp add: calculate_geoscattering_def)
  have batch: "fit self (pre @ g # post) = Inl DegreeZeroError"
    if "check_graphs (pre @ g # post) = Inr ()"
      "for_each (calculate_geoscattering self) pre = Inr rows" for pre post rows
    using that for_each_first_failure [OF that(2) calc, of post]
    by (simp add: fit_def)
  have any: "\<exists>e. fit self graphs = Inl e" if "g \<in> set graphs" for graphs
    using that calc by (rule fit_fails_with_graph)
  from op calc batch any show ?thesis by blast
qed

lemma contiguous_more_examples: "contiguous two_edges" "contiguous edge_and_isolated"
  by (simp_all add: contiguous_def two_edges_def edge_and_isolated_def nodes_def
      number_of_nodes_def upt_rec eval_nat_numeral)

lemma two_edges_operator:
  "get_normalized_adjacency two_edges
     = Inr [[1/2, 1/2, 0, 0], [1/2, 1/2, 0, 0], [0, 0, 1/2, 1/2], [0, 0, 1/2, 1/2]]"
  by (simp add: get_normalized_adjacency_def adjacency_matrix_def create_D_inverse_def
      degree_lookup_def number_of_nodes_def nodes_def neighbors_def two_edges_def upt_rec
      coo_diagonal_def sp_scale_def sp_add_def sp_identity_def sp_dot_def ncols_def
      round_double_one round_double_half)

lemma two_edges_features:
  "create_node_feature_matrix two_edges = Inl DisconnectedGraphError"
  by (simp add: create_node_feature_matrix_def degree_call_def eccentricity_def
      single_source_shortest_path_length_def bfs_levels.simps next_level_def
      number_of_nodes_def nodes_def neighbors_def two_edges_def upt_rec)

lemma two_edges_geoscattering:
  "calculate_geoscattering self two_edges = Inl DisconnectedGraphError"
  by (simp add: calculate_geoscattering_def two_edges_operator two_edges_features Let_def)

theorem degree_zero_aborts_witness:
  "get_normalized_adjacency edge_and_isolated = Inl DegreeZeroError \<and>
   fit (init 1 2) [K2, edge_and_isolated, cycle4] = Inl DegreeZeroError"
proof -
  have iso: "\<exists>v\<in>set (nodes edge_and_isolated). degree_lookup edge_and_isolated v = Inr 0"
    by (simp add: nodes_def edge_and_isolated_def degree_lookup_def)
  have chk: "check_graphs ([K2] @ edge_and_isolated # [cycle4]) = Inr ()"
    by (simp add: check_graphs_def contiguous_examples contiguous_more_examples)
  have pre: "for_each (calculate_geoscattering (init 1 2)) [K2]
      = Inr [reshape_row ([\<bar>ln 2\<bar> + \<bar>ln 2\<bar>, 2, 0] @ [ln 2, 3 * ln 2 / 4, 1, 3 / 4, 0, 0] @ [])]"
    by (simp add: K2_geoscattering)
  from degree_zero_aborts [OF contiguous_more_examples(2) iso, of "init 1 2"]
  have op: "get_normalized_adjacency edge_and_isolated = Inl DegreeZeroError"
    and batch: "\<And>pre post rows.
            check_graphs (pre @ edge_and_isolated # post) = Inr () \<and>
            for_each (calculate_geoscattering (init 1 2)) pre = Inr rows \<Longrightarrow>
            fit (init 1 2) (pre @ edge_and_isolated # post) = Inl DegreeZeroError"
    by blast+
  from batch [of "[K2]" "[cycle4]"] chk pre
  have "fit (init 1 2) ([K2] @ edge_and_isolated # [cycle4]) = Inl DegreeZeroError"
    by blast
  with op show ?thesis by simp
qed

text \<open>
  Claim C8 has every batch that contains a graph with a node of degree zero raise the
  division error. In the batch below the first graph has two components and no isolated
  node, the second has the isolated node 2: the batch passes the validation and raises
  the error of the eccentricity at the first graph.
\<close>

theorem earlier_disconnected_graph_raises_first:
  "contiguous edge_and_isolated \<and> degree_lookup edge_and_isolated 2 = Inr 0 \<and>
   fit (init 1 2) [two_edges, edge_and_isolated] = Inl DisconnectedGraphError"
proof -
  have "degree_lookup edge_and_isolated 2 = Inr 0"
    by (simp add: degree_lookup_def edge_and_isolated_def)
  moreover have "fit (init 1 2) [two_edges, edge_and_isolated] = Inl DisconnectedGraphError"
    by (simp add: contiguous_more_examples fit_def check_graphs_def two_edges_geoscattering)
  ultimately show ?thesis using contiguous_more_examples(2) by simp
qed

subsection \<open>Disconnected graphs\<close>

definition reached :: "graph \<Rightarrow> node \<Rightarrow> node set" where
  "reached g s = {w. w \<in> set (nodes g) \<and> (s, w) \<in> (edge_relation g)\<^sup>*}"

lemma nx_graph_neighbor:
  "nx_graph g \<Longrightarrow> v \<in> set (nodes g) \<Longrightarrow> w \<in> set (neighbors g v)
   \<Longrightarrow> w \<in> set (nodes g) \<and> v \<in> set (neighbors g w)"
  unfolding nx_graph_def by blast

lemma reached_step:
  assumes g: "nx_graph g" and v: "v \<in> reached g s" and w: "w \<in> set (neighbors g v)"
  shows "w \<in> reached g s"
proof -
  from v have vn: "v \<in> set (nodes g)" and sv: "(s, v) \<in> (edge_relation g)\<^sup>*"
    by (simp_all add: reached_def)
  from vn w have "(v, w) \<in> edge_relation g" by (simp add: edge_relation_def)
  with sv have "(s, w) \<in> (edge_relation g)\<^sup>*" by (rule rtrancl_into_rtrancl)
  moreover from nx_graph_neighbor [OF g vn w] have "w \<in> set (nodes g)" ..
  ultimately show ?thesis by (simp add: reached_def)
qed

lemma bfs_levels_sound:
  "nx_graph g \<Longrightarrow> set thislevel \<subseteq> reached g s \<Longrightarrow>
   fst ` set (bfs_levels g level thislevel seen) \<subseteq> reached g s \<and>
   distinct (map fst (bfs_levels g level thislevel seen)) \<and>
   fst ` set (bfs_levels g level thislevel seen) \<inter> set seen = {}"
proof (induction g level thislevel seen rule: bfs_levels.induct)
  case (1 g level thislevel seen)
  let ?found = "next_level g thislevel seen"
  show ?case
  proof (cases "?found = []")
    case True
    then have "bfs_levels g level thislevel seen = []"
      by (subst bfs_levels.simps) simp
    then show ?thesis by simp
  next
    case False
    have sub: "set ?found \<subseteq> reached g s"
    proof
      fix w assume "w \<in> set ?found"
      then obtain v where "v \<in> set thislevel" "w \<in> set (neighbors g v)"
        by (auto simp: set_next_level)
      with "1.prems" show "w \<in> reached g s" by (blast intro: reached_step)
    qed
    have new: "set ?found \<inter> set seen = {}" by (auto simp: set_next_level)
    let ?rest = "bfs_levels g (level + 1) ?found (seen @ ?found)"
    from "1.IH" [OF refl False "1.prems"(1) sub]
    have rest: "fst ` set ?rest \<subseteq> reached g s" "distinct (map fst ?rest)"
      "fst ` set ?rest \<inter> set (seen @ ?found) = {}"
      by simp_all
    have unfold: "bfs_levels g level thislevel seen = map (\<lambda>w. (w, level + 1)) ?found @ ?rest"
      using False by (subst bfs_levels.simps) (simp add: Let_def)
    have nodes_eq: "map fst (bfs_levels g level thislevel seen) = ?found @ map fst ?rest"
      unfolding unfold by (simp add: comp_def)
    have img: "fst ` set (bfs_levels g level thislevel seen) = set ?found \<union> fst ` set ?rest"
      using arg_cong [OF nodes_eq, of set] by simp
    have "set ?found \<inter> fst ` set ?rest = {}" using rest(3) by auto
    then have "distinct (?found @ map fst ?rest)"
      using rest(2) distinct_next_level [of g thislevel seen] by simp
    then have dist: "distinct (map fst (bfs_levels g level thislevel seen))"
      by (simp only: nodes_eq)
    have "fst ` set ?rest \<inter> set seen = {}" using rest(3) by auto
    with new have disj: "(set ?found \<union> fst ` set ?rest) \<inter> set seen = {}" by blast
    from sub rest(1) have "set ?found \<union> fst ` set ?rest \<subseteq> reached g s" by blast
    with dist disj show ?thesis unfolding img by blast
  qed
qed

lemma shortest_path_lengths_sound:
  assumes g: "nx_graph g" and s: "s \<in> set (nodes g)"
  shows "fst ` set (single_source_shortest_path_length g s) \<subseteq> reached g s"
    and "distinct (map fst (single_source_shortest_path_length g s))"
proof -
  let ?rest = "bfs_levels g 0 [s] [s]"
  from s have s': "s \<in> reached g s" by (simp add: reached_def)
  then have "set [s] \<subseteq> reached g s" by simp
  from bfs_levels_sound [OF g this, of 0 "[s]"]
  have rest: "fst ` set ?rest \<subseteq> reached g s" "distinct (map fst ?rest)"
    "fst ` set ?rest \<inter> set [s] = {}"
    by blast+
  have eq: "map fst (single_source_shortest_path_length g s) = s # map fst ?rest"
    by (simp add: single_source_shortest_path_length_def)
  from rest(3) have "s \<notin> set (map fst ?rest)" by auto
  with rest(2) show "distinct (map fst (single_source_shortest_path_length g s))"
    by (simp only: eq distinct.simps) simp
  have "fst ` set (single_source_shortest_path_length g s) = insert s (fst ` set ?rest)"
    by (simp add: single_source_shortest_path_length_def)
  with s' rest(1) show "fst ` set (single_source_shortest_path_length g s) \<subseteq> reached g s"
    by simp
qed

lemma sym_edge_relation:
  assumes "nx_graph g"
  shows "sym (edge_relation g)"
proof (rule symI)
  fix v w assume "(v, w) \<in> edge_relation g"
  then have "v \<in> set (nodes g)" "w \<in> set (neighbors g v)"
    by (simp_all add: edge_relation_def)
  from nx_graph_neighbor [OF assms this] show "(w, v) \<in> edge_relation g"
    by (simp add: edge_relation_def)
qed

lemma all_reached_connected:
  assumes g: "nx_graph g" and all: "set (nodes g) \<subseteq> reached g s"
  shows "is_connected g"
  unfolding is_connected_def
proof (intro ballI)
  fix u v assume "u \<in> set (nodes g)" "v \<in> set (nodes g)"
  with all have su: "(s, u) \<in> (edge_relation g)\<^sup>*" and sv: "(s, v) \<in> (edge_relation g)\<^sup>*"
    by (auto simp: reached_def)
  from sym_edge_relation [OF g] have "sym ((edge_relation g)\<^sup>*)" by (rule sym_rtrancl)
  with su have "(u, s) \<in> (edge_relation g)\<^sup>*" by (simp add: sym_def)
  from this sv show "(u, v) \<in> (edge_relation g)\<^sup>*" by (rule rtrancl_trans)
qed


lemma eccentricity_disconnected:
  assumes g: "nx_graph g" and s: "s \<in> set (nodes g)" and d: "\<not> is_connected g"
  shows "eccentricity g s = Inl DisconnectedGraphError"
proof -
  let ?d = "single_source_shortest_path_length g s"
  have "length ?d \<noteq> number_of_nodes g"
  proof
    assume eq: "length ?d = number_of_nodes g"
    from g have dn: "distinct (nodes g)" by (simp add: nx_graph_def)
    have "card (fst ` set ?d) = length ?d"
      using shortest_path_lengths_sound(2) [OF g s] distinct_card [of "map fst ?d"] by simp
    also have "\<dots> = card (set (nodes g))"
      using eq distinct_card [OF dn] by (simp add: number_of_nodes_def nodes_def)
    finally have c: "card (fst ` set ?d) = card (set (nodes g))" .
    have "fst ` set ?d \<subseteq> set (nodes g)"
      using shortest_path_lengths_sound(1) [OF g s] by (auto simp: reached_def)
    then have "fst ` set ?d = set (nodes g)"
      using c by (rule card_subset_eq [OF finite_set])
    with shortest_path_lengths_sound(1) [OF g s] have "set (nodes g) \<subseteq> reached g s" by simp
    with g have "is_connected g" by (rule all_reached_connected)
    with d show False ..
  qed
  with s show ?thesis unfolding eccentricity_def Let_def by simp
qed

lemma log_degree_ok:
  assumes "contiguous g"
  shows "\<exists>log_degree. for_each
             (\<lambda>node. case degree_call g node of
                        Inl e \<Rightarrow> Inl e
                      | Inr d \<Rightarrow> Inr (ln (real (d + 1))))
             [0..<number_of_nodes g] = Inr log_degree"
proof (rule for_each_all_ok)
  fix v assume "v \<in> set [0..<number_of_nodes g]"
  then have "v < number_of_nodes g" by simp
  from contiguous_lookup [OF assms this] obtain ns where "map_of g v = Some ns" ..
  then show "\<exists>y. (case degree_call g v of Inl e \<Rightarrow> Inl e | Inr d \<Rightarrow> Inr (ln (real (d + 1)))) = Inr y"
    by (simp add: degree_call_def)
qed

lemma calculate_geoscattering_fails:
  assumes "create_node_feature_matrix g = Inl e"
  shows "\<exists>e'. calculate_geoscattering self g = Inl e'"
proof (cases "get_normalized_adjacency g")
  case (Inl e')
  then show ?thesis by (simp add: calculate_geoscattering_def)
next
  case (Inr A_hat)
  with assms show ?thesis by (simp add: calculate_geoscattering_def Let_def)
qed

text \<open>
  Claim C9. Let the graph be undirected (as NetworkX keeps it) with node labels
  \<open>0..n-1\<close>, and not connected. Then the eccentricity of the first node raises the error
  of NetworkX for a graph that is not connected, the extraction of the node features
  raises it, and every batch that contains the graph raises an exception.
\<close>

theorem disconnected_graph_rejected:
  assumes "nx_graph g" and "contiguous g" and "\<not> is_connected g"
  shows "eccentricity g 0 = Inl DisconnectedGraphError \<and>
         create_node_feature_matrix g = Inl DisconnectedGraphError \<and>
         (\<forall>graphs. g \<in> set graphs \<longrightarrow> (\<exists>e. fit self graphs = Inl e))"
proof -
  from assms(3) obtain u where "u \<in> set (nodes g)"
    by (auto simp: is_connected_def)
  with assms(2) have n: "0 < number_of_nodes g" by (auto simp: contiguous_node_iff)
  with assms(2) have "0 \<in> set (nodes g)" by (simp add: contiguous_node_iff)
  with assms(1) have ecc: "eccentricity g 0 = Inl DisconnectedGraphError"
    using assms(3) by (rule eccentricity_disconnected)
  from n have range: "[0..<number_of_nodes g] = 0 # [1..<number_of_nodes g]"
    by (simp add: upt_conv_Cons)
  have loop: "for_each
                  (\<lambda>node. case eccentricity g node of
                             Inl e \<Rightarrow> Inl e
                           | Inr d \<Rightarrow> Inr (real d))
                  [0..<number_of_nodes g] = Inl DisconnectedGraphError"
    by (simp only: range for_each.simps ecc sum.case)
  from log_degree_ok [OF assms(2)] obtain log_degree where "for_each
             (\<lambda>node. case degree_call g node of
                        Inl e \<Rightarrow> Inl e
                      | Inr d \<Rightarrow> Inr (ln (real (d + 1))))
             [0..<number_of_nodes g] = Inr log_degree" ..
  with loop have X: "create_node_feature_matrix g = Inl DisconnectedGraphError"
    by (simp add: create_node_feature_matrix_def)
  have "\<exists>e. fit self graphs = Inl e" if "g \<in> set graphs" for graphs
  proof -
    from calculate_geoscattering_fails [OF X] obtain e'
      where "calculate_geoscattering self g = Inl e'" ..
    with that show ?thesis by (rule fit_fails_with_graph)
  qed
  with ecc X show ?thesis by blast
qed

lemma two_edges_disconnected: "\<not> is_connected two_edges"
proof
  assume "is_connected two_edges"
  then have r: "(0, 2) \<in> (edge_relation two_edges)\<^sup>*"
    by (simp add: is_connected_def nodes_def two_edges_def)
  have "(0, w) \<in> (edge_relation two_edges)\<^sup>* \<Longrightarrow> w = 0 \<or> w = 1" for w
  proof (induction rule: rtrancl_induct)
    case base
    show ?case by simp
  next
    case (step y z)
    from step.hyps(2) have "z \<in> set (neighbors two_edges y)"
      by (simp add: edge_relation_def)
    with step.IH show ?case
      by (auto simp: neighbors_def two_edges_def)
  qed
  from this [OF r] show False by simp
qed

lemma nx_graph_two_edges: "nx_graph two_edges"
  by (simp add: nx_graph_def nodes_def neighbors_def two_edges_def)

theorem disconnected_graph_rejected_witness:
  "create_node_feature_matrix two_edges = Inl DisconnectedGraphError \<and>
   (\<exists>e. fit (init 4 4) [K2, two_edges] = Inl e)"
  using disconnected_graph_rejected
    [OF nx_graph_two_edges contiguous_more_examples(1) two_edges_disconnected, of "init 4 4"]
  by simp

subsection \<open>Row sums of the normalized operator\<close>

lemma sum_list_delta:
  "u < n \<Longrightarrow> (\<Sum>k\<leftarrow>[0..<n]. if u = k then f k else 0) = (f u :: real)"
proof (induction n)
  case 0
  then show ?case by simp
next
  case (Suc n)
  show ?case
  proof (cases "u = n")
    case True
    have "(\<Sum>k\<leftarrow>[0..<n]. if u = k then f k else 0) = (\<Sum>k\<leftarrow>[0..<n]. 0::real)"
      using True by (intro arg_cong [where f = sum_list] map_cong) auto
    with True show ?thesis by simp
  next
    case False
    with Suc show ?thesis by simp
  qed
qed

lemma dot_diagonal_entry:
  assumes "i < length values'"
  shows "(\<Sum>k\<leftarrow>[0..<length values'].
            map (\<lambda>j. if i = j then values' ! i else 0) [0..<length values'] ! k * a k)
         = values' ! i * (a i :: real)"
proof -
  have "map (\<lambda>k. map (\<lambda>j. if i = j then values' ! i else 0) [0..<length values'] ! k * a k)
          [0..<length values']
      = map (\<lambda>k. if i = k then values' ! i * a k else 0) [0..<length values']"
    by (rule map_cong) auto
  then have "(\<Sum>k\<leftarrow>[0..<length values'].
            map (\<lambda>j. if i = j then values' ! i else 0) [0..<length values'] ! k * a k)
      = (\<Sum>k\<leftarrow>[0..<length values']. if i = k then values' ! i * a k else 0)"
    by (rule arg_cong)
  also have "\<dots> = values' ! i * a i"
    by (rule sum_list_delta [OF assms])
  finally show ?thesis .
qed

lemma indicator_sum:
  assumes "distinct ns" and "set ns \<subseteq> {..<n}"
  shows "(\<Sum>j\<leftarrow>[0..<n]. if j \<in> set ns then 1 else 0) = real (length ns)"
proof -
  have "(\<Sum>j\<leftarrow>[0..<n]. if j \<in> set ns then 1 else (0::real))
      = (\<Sum>j\<in>{0..<n}. if j \<in> set ns then 1 else 0)"
    by (simp add: sum_list_distinct_conv_sum_set)
  also have "\<dots> = (\<Sum>j\<in>{0..<n} \<inter> set ns. 1)"
    by (rule sum.inter_restrict [symmetric]) simp
  also have "{0..<n} \<inter> set ns = set ns" using assms(2) by auto
  also have "(\<Sum>j\<in>set ns. (1::real)) = real (card (set ns))" by simp
  also have "card (set ns) = length ns" using assms(1) by (rule distinct_card)
  finally show ?thesis .
qed

lemma normalized_adjacency_entries:
  assumes "get_normalized_adjacency g = Inr A_hat"
  shows "\<exists>values'. length values' = number_of_nodes g \<and>
           (\<forall>u<number_of_nodes g. \<exists>d. degree_lookup g u = Inr d \<and> d \<noteq> 0 \<and>
                                        values' ! u = round_double (1 / real d)) \<and>
           A_hat = map (\<lambda>i. map (\<lambda>j. 1/2 * ((if i = j then 1 else 0)
                                   + values' ! i * (if j \<in> set (neighbors g i) then 1 else 0)))
                              [0..<number_of_nodes g])
                     [0..<number_of_nodes g]"
proof -
  let ?n = "number_of_nodes g"
  let ?a = "\<lambda>i j. if j \<in> set (neighbors g i) then 1 else (0::real)"
  let ?f = "\<lambda>node. case degree_lookup g node of
                        Inl e \<Rightarrow> Inl e
                      | Inr d \<Rightarrow> if d = 0 then Inl ZeroDivisionError
                                else Inr (round_double (1 / real d))"
  from assms obtain A D where A: "adjacency_matrix g [0..<?n] = Inr A"
    and D: "create_D_inverse g = Inr D"
    and A_hat: "A_hat = sp_scale (1/2) (sp_add (sp_identity ?n) (sp_dot D A))"
    by (auto simp: get_normalized_adjacency_def split: sum.splits)
  from A have A': "A = map (\<lambda>u. map (\<lambda>v. ?a u v) [0..<?n]) [0..<?n]"
    by (auto simp: adjacency_matrix_def split: if_splits)
  from D obtain values' where v: "for_each ?f [0..<?n] = Inr values'"
    and D': "D = coo_diagonal values'"
    by (auto simp: create_D_inverse_def split: sum.splits)
  from v have lv: "length values' = ?n" by (auto dest: for_each_length)
  have deg: "\<exists>d. degree_lookup g u = Inr d \<and> d \<noteq> 0 \<and>
                  values' ! u = round_double (1 / real d)"
    if "u < ?n" for u
  proof -
    from for_each_nth [OF v, of u] that have "?f u = Inr (values' ! u)" by simp
    then show ?thesis by (auto split: sum.splits if_splits)
  qed
  have nc: "ncols A = ?n"
    by (cases "?n") (simp_all add: A' ncols_def upt_conv_Cons del: upt_Suc)
  have la: "length A = ?n" by (simp add: A')
  have entry: "A ! k ! j = ?a k j" if "k < ?n" "j < ?n" for k j
    using that by (simp add: A')
  have dot: "sp_dot D A = map (\<lambda>i. map (\<lambda>j. values' ! i * ?a i j) [0..<?n]) [0..<?n]"
  proof -
    have "sp_dot D A
        = map (\<lambda>i. map (\<lambda>j. (\<Sum>k\<leftarrow>[0..<?n].
                  map (\<lambda>j. if i = j then values' ! i else 0) [0..<?n] ! k * A ! k ! j))
                 [0..<?n]) [0..<?n]"
      by (simp add: sp_dot_def D' coo_diagonal_def nc la lv comp_def)
    also have "\<dots> = map (\<lambda>i. map (\<lambda>j. values' ! i * ?a i j) [0..<?n]) [0..<?n]"
    proof (rule map_cong [OF refl], rule map_cong [OF refl])
      fix i j assume i: "i \<in> set [0..<?n]" and j: "j \<in> set [0..<?n]"
      then have i': "i < length values'" by (simp add: lv)
      from dot_diagonal_entry [OF i', of "\<lambda>k. A ! k ! j"]
      have "(\<Sum>k\<leftarrow>[0..<?n]. map (\<lambda>j. if i = j then values' ! i else 0) [0..<?n] ! k * A ! k ! j)
          = values' ! i * A ! i ! j"
        by (simp add: lv)
      with i j show "(\<Sum>k\<leftarrow>[0..<?n]. map (\<lambda>j. if i = j then values' ! i else 0) [0..<?n] ! k * A ! k ! j)
          = values' ! i * ?a i j"
        by (simp add: entry)
    qed
    finally show ?thesis .
  qed
  have "A_hat = map (\<lambda>i. map (\<lambda>j. 1/2 * ((if i = j then 1 else 0) + values' ! i * ?a i j))
                       [0..<?n]) [0..<?n]"
    unfolding A_hat dot
    by (simp add: sp_scale_def sp_add_def sp_identity_def map2_map_map)
  with lv deg show ?thesis by blast
qed

lemma create_D_inverse_ok:
  assumes c: "contiguous g" and d: "\<forall>v\<in>set (nodes g). degree_lookup g v \<noteq> Inr 0"
  shows "\<exists>D. create_D_inverse g = Inr D"
proof -
  let ?f = "\<lambda>node. case degree_lookup g node of
                        Inl e \<Rightarrow> Inl e
                      | Inr d \<Rightarrow> if d = 0 then Inl ZeroDivisionError
                                else Inr (round_double (1 / real d))"
  have "\<exists>values'. for_each ?f [0..<number_of_nodes g] = Inr values'"
  proof (rule for_each_all_ok)
    fix v assume "v \<in> set [0..<number_of_nodes g]"
    then have v: "v < number_of_nodes g" by simp
    from contiguous_lookup [OF c v] obtain ns where "map_of g v = Some ns" ..
    then obtain k where k: "degree_lookup g v = Inr k" by (simp add: degree_lookup_def)
    from v c have "v \<in> set (nodes g)" by (simp add: contiguous_node_iff)
    with d k have "k \<noteq> 0" by auto
    with k show "\<exists>y. ?f v = Inr y" by simp
  qed
  then show ?thesis by (auto simp: create_D_inverse_def)
qed

text \<open>
  Claim C6. Let the graph be undirected and simple, with node labels \<open>0..n-1\<close>. If it has
  a node and every node has a degree of at least one, the normalized operator is
  constructed. Whenever it is constructed it is the \<open>n \<times> n\<close> matrix
  \<open>1/2 (I + D\<^sup>-\<^sup>1 A)\<close> in which \<open>D\<^sup>-\<^sup>1\<close> holds the doubles \<^verbatim>\<open>1.0/degree\<close>: the entry in
  row \<open>u\<close> and column \<open>v\<close> is one half of the sum of the entry of the identity and of the
  entry of the adjacency matrix times the double nearest to the reciprocal of the
  degree of \<open>u\<close>. The entries of row \<open>u\<close> add up to \<open>1/2 + 1/2 d r\<close>, with \<open>d\<close> the degree
  and \<open>r\<close> that double: a number within \<open>2\<^sup>-\<^sup>5\<^sup>4\<close> of 1, and 1 itself when the degree is a
  power of two.
\<close>

theorem normalized_operator_row_sums:
  assumes g: "nx_graph g" and c: "contiguous g" and s: "simple g"
  shows "(g \<noteq> [] \<and> (\<forall>v\<in>set (nodes g). degree_lookup g v \<noteq> Inr 0) \<longrightarrow>
            (\<exists>A_hat. get_normalized_adjacency g = Inr A_hat)) \<and>
         (\<forall>A_hat. get_normalized_adjacency g = Inr A_hat \<longrightarrow>
            length A_hat = number_of_nodes g \<and>
            (\<forall>u<number_of_nodes g.
               A_hat ! u = map (\<lambda>v. 1/2 * ((if u = v then 1 else 0)
                                 + (if v \<in> set (neighbors g u) then 1 else 0)
                                   * round_double (1 / real (length (neighbors g u)))))
                             [0..<number_of_nodes g] \<and>
               sum_list (A_hat ! u)
                 = 1/2 + 1/2 * (real (length (neighbors g u))
                                  * round_double (1 / real (length (neighbors g u)))) \<and>
               \<bar>sum_list (A_hat ! u) - 1\<bar> \<le> 1 / 2 ^ 54 \<and>
               ((\<exists>k. length (neighbors g u) = 2 ^ k) \<longrightarrow> sum_list (A_hat ! u) = 1)))"
proof -
  let ?n = "number_of_nodes g"
  have ex: "\<exists>A_hat. get_normalized_adjacency g = Inr A_hat"
    if ne: "g \<noteq> []" and d: "\<forall>v\<in>set (nodes g). degree_lookup g v \<noteq> Inr 0"
  proof -
    from create_D_inverse_ok [OF c d] obtain D where "create_D_inverse g = Inr D" ..
    with adjacency_matrix_contiguous [OF c ne] show ?thesis
      by (simp add: get_normalized_adjacency_def)
  qed
  have len: "length A_hat = ?n" if A: "get_normalized_adjacency g = Inr A_hat" for A_hat
    using square_operator [OF A] by (simp add: square_def)
  have rows: "A_hat ! u = map (\<lambda>v. 1/2 * ((if u = v then 1 else 0)
                                 + (if v \<in> set (neighbors g u) then 1 else 0)
                                   * round_double (1 / real (length (neighbors g u)))))
                             [0..<?n] \<and>
               sum_list (A_hat ! u)
                 = 1/2 + 1/2 * (real (length (neighbors g u))
                                  * round_double (1 / real (length (neighbors g u)))) \<and>
               \<bar>sum_list (A_hat ! u) - 1\<bar> \<le> 1 / 2 ^ 54 \<and>
               ((\<exists>k. length (neighbors g u) = 2 ^ k) \<longrightarrow> sum_list (A_hat ! u) = 1)"
    if A: "get_normalized_adjacency g = Inr A_hat" and u: "u < ?n" for A_hat u
  proof -
    let ?ns = "neighbors g u"
    let ?a = "\<lambda>v. if v \<in> set ?ns then 1 else (0::real)"
    let ?d = "real (length ?ns)"
    let ?r = "round_double (1 / ?d)"
    from normalized_adjacency_entries [OF A] obtain values'
      where deg: "\<forall>u<?n. \<exists>d. degree_lookup g u = Inr d \<and> d \<noteq> 0 \<and>
                            values' ! u = round_double (1 / real d)"
        and A_hat: "A_hat = map (\<lambda>i. map (\<lambda>j. 1/2 * ((if i = j then 1 else 0)
                                     + values' ! i * (if j \<in> set (neighbors g i) then 1 else 0)))
                                [0..<?n]) [0..<?n]"
      by blast
    from deg u obtain d where d: "degree_lookup g u = Inr d" "d \<noteq> 0"
        "values' ! u = round_double (1 / real d)"
      by blast
    from u c have un: "u \<in> set (nodes g)" by (simp add: contiguous_node_iff)
    with s have "u \<notin> set ?ns" by (simp add: simple_def)
    with d(1) have dl: "d = length ?ns"
      by (auto simp: degree_lookup_def neighbors_def split: option.splits)
    from d(2) dl have pos: "0 < ?d" by simp
    from g un have dist: "distinct ?ns" and sub: "set ?ns \<subseteq> set (nodes g)"
      unfolding nx_graph_def by blast+
    from sub c have sub': "set ?ns \<subseteq> {..<?n}" by (auto simp: contiguous_node_iff)
    have row: "A_hat ! u = map (\<lambda>v. 1/2 * ((if u = v then 1 else 0) + ?a v * ?r)) [0..<?n]"
      using u by (simp add: A_hat d(3) dl mult.commute)
    have "sum_list (A_hat ! u)
        = (\<Sum>v\<leftarrow>[0..<?n]. 1/2 * (if u = v then 1 else 0) + 1/2 * (?a v * ?r))"
      unfolding row by (simp add: distrib_left)
    also have "\<dots> = (\<Sum>v\<leftarrow>[0..<?n]. 1/2 * (if u = v then 1 else 0))
                    + (\<Sum>v\<leftarrow>[0..<?n]. 1/2 * (?a v * ?r))"
      by (rule sum_list_addf)
    also have "(\<Sum>v\<leftarrow>[0..<?n]. 1/2 * (if u = v then 1 else 0))
        = 1/2 * (\<Sum>v\<leftarrow>[0..<?n]. if u = v then 1 else (0::real))"
      by (rule sum_list_const_mult)
    also have "(\<Sum>v\<leftarrow>[0..<?n]. 1/2 * (?a v * ?r)) = 1/2 * ((\<Sum>v\<leftarrow>[0..<?n]. ?a v) * ?r)"
      by (simp only: sum_list_const_mult sum_list_mult_const)
    also have "(\<Sum>v\<leftarrow>[0..<?n]. if u = v then 1 else 0) = (1::real)"
      using sum_list_delta [OF u, of "\<lambda>k. 1"] by simp
    also have "(\<Sum>v\<leftarrow>[0..<?n]. ?a v) = ?d"
      using dist sub' by (rule indicator_sum)
    finally have total: "sum_list (A_hat ! u) = 1/2 + 1/2 * (?d * ?r)" by simp
    from pos have "\<bar>?d * ?r - 1\<bar> \<le> 1 / 2 ^ 53" by (rule reciprocal_rounded)
    from half_way [OF this] have near: "\<bar>sum_list (A_hat ! u) - 1\<bar> \<le> 1 / 2 ^ 54"
      unfolding total by simp
    have exact: "sum_list (A_hat ! u) = 1" if "\<exists>k. length ?ns = 2 ^ k"
    proof -
      from that obtain k where "length ?ns = 2 ^ k" ..
      then have k: "?d = 2 ^ k" by simp
      show ?thesis unfolding total k round_double_power_of_two by simp
    qed
    from row total near exact show ?thesis by blast
  qed
  from ex len rows show ?thesis by blast
qed

lemma cycle4_graph: "nx_graph cycle4" "simple cycle4"
  by (simp_all add: nx_graph_def simple_def nodes_def neighbors_def cycle4_def)

theorem normalized_operator_row_sums_witness:
  "\<exists>A_hat. get_normalized_adjacency cycle4 = Inr A_hat \<and> map sum_list A_hat = [1, 1, 1, 1]"
proof -
  let ?A = "[[1/2, 1/4, 0, 1/4], [1/4, 1/2, 1/4, 0], [0, 1/4, 1/2, 1/4], [1/4, 0, 1/4, 1/2::real]]"
  have n: "number_of_nodes cycle4 = 4" by (simp add: number_of_nodes_def cycle4_def)
  have two: "\<exists>k. length (neighbors cycle4 u) = 2 ^ k" if "u < 4" for u
  proof -
    from that have "u = 0 \<or> u = 1 \<or> u = 2 \<or> u = 3" by auto
    then have "length (neighbors cycle4 u) = 2 ^ 1"
      by (auto simp: neighbors_def cycle4_def)
    then show ?thesis ..
  qed
  note normalized_operator_row_sums
    [OF cycle4_graph(1) contiguous_examples(2) cycle4_graph(2), THEN conjunct2, THEN spec,
     THEN mp, OF cycle4_operator, THEN conjunct2]
  then have "\<And>u. u < 4 \<Longrightarrow> (\<exists>k. length (neighbors cycle4 u) = 2 ^ k) \<longrightarrow> sum_list (?A ! u) = 1"
    unfolding n by (rule allE) (rule mp [THEN conjunct2, THEN conjunct2, THEN conjunct2])
  with two have rows: "\<And>u. u < 4 \<Longrightarrow> sum_list (?A ! u) = 1" by blast
  from rows [of 0] have r0: "sum_list [1/2, 1/4, 0, 1/4::real] = 1" by simp
  from rows [of 1] have r1: "sum_list [1/4, 1/2, 1/4, 0::real] = 1" by simp
  from rows [of 2] have r2: "sum_list [0, 1/4, 1/2, 1/4::real] = 1" by simp
  from rows [of 3] have r3: "sum_list [1/4, 0, 1/4, 1/2::real] = 1" by simp
  show ?thesis
  proof (intro exI conjI)
    show "get_normalized_adjacency cycle4 = Inr ?A" by (rule cycle4_operator)
    show "map sum_list ?A = [1, 1, 1, 1]" by (simp only: list.map r0 r1 r2 r3)
  qed
qed

text \<open>
  The rows do not always add up to 1. The centre of the star with three leaves has the
  degree 3, and the double nearest to one third is \<open>6004799503160661 / 2\<^sup>5\<^sup>4\<close>, a little
  less than one third: the entries of the row of the centre add up to \<open>1 - 2\<^sup>-\<^sup>5\<^sup>5\<close>.
\<close>

lemma star3_graph: "nx_graph star3" "contiguous star3" "simple star3"
  by (simp_all add: nx_graph_def contiguous_def simple_def nodes_def neighbors_def
      number_of_nodes_def star3_def upt_rec eval_nat_numeral)

lemma star3_operator:
  "get_normalized_adjacency star3
     = Inr [[1/2, 6004799503160661 / 2 ^ 55, 6004799503160661 / 2 ^ 55,
             6004799503160661 / 2 ^ 55],
            [1/2, 1/2, 0, 0], [1/2, 0, 1/2, 0], [1/2, 0, 0, 1/2]]"
  by (simp add: get_normalized_adjacency_def adjacency_matrix_def create_D_inverse_def
      degree_lookup_def number_of_nodes_def nodes_def neighbors_def star3_def upt_rec
      coo_diagonal_def sp_scale_def sp_add_def sp_identity_def sp_dot_def ncols_def
      round_double_one round_double_third)

theorem star_row_sum_below_one:
  "nx_graph star3 \<and> contiguous star3 \<and> simple star3 \<and>
   map (degree_lookup star3) (nodes star3) = [Inr 3, Inr 1, Inr 1, Inr 1] \<and>
   (\<exists>A_hat. get_normalized_adjacency star3 = Inr A_hat \<and>
      A_hat ! 0 = [1/2, 6004799503160661 / 2 ^ 55, 6004799503160661 / 2 ^ 55,
                   6004799503160661 / 2 ^ 55] \<and>
      sum_list (A_hat ! 0) = 1 - 1 / 2 ^ 55 \<and>
      sum_list (A_hat ! 0) \<noteq> 1)"
proof -
  have "map (degree_lookup star3) (nodes star3) = [Inr 3, Inr 1, Inr 1, Inr 1]"
    by (simp add: degree_lookup_def nodes_def star3_def)
  with star3_graph show ?thesis
    unfolding star3_operator by simp
qed

subsection \<open>Connected graphs\<close>

lemma bfs_levels_closed:
  "set thislevel \<subseteq> set seen \<Longrightarrow>
   (\<And>v. v \<in> set seen \<Longrightarrow> v \<notin> set thislevel \<Longrightarrow> set (neighbors g v) \<subseteq> set seen) \<Longrightarrow>
   v \<in> set seen \<union> fst ` set (bfs_levels g level thislevel seen) \<Longrightarrow>
   set (neighbors g v) \<subseteq> set seen \<union> fst ` set (bfs_levels g level thislevel seen)"
proof (induction g level thislevel seen arbitrary: v rule: bfs_levels.induct)
  case (1 g level thislevel seen)
  let ?found = "next_level g thislevel seen"
  have found: "set ?found = (\<Union>u\<in>set thislevel. set (neighbors g u)) - set seen"
    by (rule set_next_level)
  show ?case
  proof (cases "?found = []")
    case True
    then have empty: "bfs_levels g level thislevel seen = []"
      by (subst bfs_levels.simps) simp
    with "1.prems"(3) have v: "v \<in> set seen" by simp
    have "set (neighbors g v) \<subseteq> set seen"
    proof (cases "v \<in> set thislevel")
      case False
      with v show ?thesis by (rule "1.prems"(2))
    next
      case inlevel: True
      from True found have "(\<Union>u\<in>set thislevel. set (neighbors g u)) \<subseteq> set seen" by auto
      with inlevel show ?thesis by blast
    qed
    with empty show ?thesis by simp
  next
    case False
    let ?rest = "bfs_levels g (level + 1) ?found (seen @ ?found)"
    have unfold: "bfs_levels g level thislevel seen = map (\<lambda>w. (w, level + 1)) ?found @ ?rest"
      using False by (subst bfs_levels.simps) (simp add: Let_def)
    have nodes_eq: "map fst (bfs_levels g level thislevel seen) = ?found @ map fst ?rest"
      unfolding unfold by (simp add: comp_def)
    have img: "set seen \<union> fst ` set (bfs_levels g level thislevel seen)
        = set (seen @ ?found) \<union> fst ` set ?rest"
      using arg_cong [OF nodes_eq, of set] by auto
    have sub: "set ?found \<subseteq> set (seen @ ?found)" by simp
    have inv: "set (neighbors g u) \<subseteq> set (seen @ ?found)"
      if u: "u \<in> set (seen @ ?found)" "u \<notin> set ?found" for u
    proof -
      from u have us: "u \<in> set seen" by simp
      show ?thesis
      proof (cases "u \<in> set thislevel")
        case False
        with us have "set (neighbors g u) \<subseteq> set seen" by (rule "1.prems"(2))
        then show ?thesis by auto
      next
        case True
        then have "set (neighbors g u) \<subseteq> set seen \<union> set ?found"
          unfolding found by blast
        then show ?thesis by simp
      qed
    qed
    from "1.prems"(3) have "v \<in> set (seen @ ?found) \<union> fst ` set ?rest"
      unfolding img .
    from "1.IH" [OF refl False sub inv this]
    show ?thesis unfolding img by simp
  qed
qed

lemma shortest_path_lengths_complete:
  assumes "(s, w) \<in> (edge_relation g)\<^sup>*"
  shows "w \<in> fst ` set (single_source_shortest_path_length g s)"
  using assms
proof (induction rule: rtrancl_induct)
  case base
  show ?case by (simp add: single_source_shortest_path_length_def)
next
  case (step y z)
  let ?N = "set [s] \<union> fst ` set (bfs_levels g 0 [s] [s])"
  have N: "fst ` set (single_source_shortest_path_length g s) = ?N"
    by (simp add: single_source_shortest_path_length_def)
  from step.IH have y: "y \<in> ?N" unfolding N .
  have "set (neighbors g y) \<subseteq> ?N"
    by (rule bfs_levels_closed [OF _ _ y]) simp_all
  moreover from step.hyps(2) have "z \<in> set (neighbors g y)"
    by (simp add: edge_relation_def)
  ultimately show ?case unfolding N by blast
qed

lemma eccentricity_connected:
  assumes g: "nx_graph g" and s: "s \<in> set (nodes g)" and c: "is_connected g"
  shows "\<exists>d. eccentricity g s = Inr d"
proof -
  let ?d = "single_source_shortest_path_length g s"
  have "set (nodes g) \<subseteq> fst ` set ?d"
  proof
    fix w assume "w \<in> set (nodes g)"
    with c s have "(s, w) \<in> (edge_relation g)\<^sup>*" by (simp add: is_connected_def)
    then show "w \<in> fst ` set ?d" by (rule shortest_path_lengths_complete)
  qed
  moreover have "fst ` set ?d \<subseteq> set (nodes g)"
    using shortest_path_lengths_sound(1) [OF g s] by (auto simp: reached_def)
  ultimately have eq: "set (map fst ?d) = set (nodes g)" by auto
  from g have dn: "distinct (nodes g)" by (simp add: nx_graph_def)
  have "length ?d = card (set (map fst ?d))"
    using distinct_card [OF shortest_path_lengths_sound(2) [OF g s]] by simp
  also have "\<dots> = length (nodes g)"
    unfolding eq using distinct_card [OF dn] .
  finally have "length ?d = number_of_nodes g"
    by (simp add: nodes_def number_of_nodes_def)
  with s show ?thesis unfolding eccentricity_def Let_def by simp
qed

lemma node_features_ok:
  assumes g: "nx_graph g" and c: "contiguous g" and conn: "is_connected g"
  shows "\<exists>X. create_node_feature_matrix g = Inr X"
proof -
  let ?n = "number_of_nodes g"
  from log_degree_ok [OF c] obtain log_degree where l: "for_each
             (\<lambda>node. case degree_call g node of
                        Inl e \<Rightarrow> Inl e
                      | Inr d \<Rightarrow> Inr (ln (real (d + 1))))
             [0..<?n] = Inr log_degree" ..
  have "\<exists>ecc. for_each
                  (\<lambda>node. case eccentricity g node of
                             Inl e \<Rightarrow> Inl e
                           | Inr d \<Rightarrow> Inr (real d))
                  [0..<?n] = Inr ecc"
  proof (rule for_each_all_ok)
    fix v assume "v \<in> set [0..<?n]"
    with c have "v \<in> set (nodes g)" by (simp add: contiguous_node_iff)
    from eccentricity_connected [OF g this conn] obtain d where "eccentricity g v = Inr d" ..
    then show "\<exists>y. (case eccentricity g v of Inl e \<Rightarrow> Inl e | Inr d \<Rightarrow> Inr (real d)) = Inr y"
      by simp
  qed
  then obtain ecc where e: "for_each
                  (\<lambda>node. case eccentricity g node of
                             Inl e \<Rightarrow> Inl e
                           | Inr d \<Rightarrow> Inr (real d))
                  [0..<?n] = Inr ecc" ..
  have "\<exists>cc. for_each (clustering g) [0..<?n] = Inr cc"
  proof (rule for_each_all_ok)
    fix v assume "v \<in> set [0..<?n]"
    with c have "v \<in> set (nodes g)" by (simp add: contiguous_node_iff)
    then show "\<exists>y. clustering g v = Inr y" by (simp add: clustering_def Let_def)
  qed
  then obtain cc where "for_each (clustering g) [0..<?n] = Inr cc" ..
  with l e show ?thesis by (simp add: create_node_feature_matrix_def)
qed

lemma node_features_disconnected:
  assumes g: "nx_graph g" and c: "contiguous g" and d: "\<not> is_connected g"
  shows "create_node_feature_matrix g = Inl DisconnectedGraphError"
proof -
  from d obtain u where "u \<in> set (nodes g)"
    by (auto simp: is_connected_def)
  with c have n: "0 < number_of_nodes g" by (auto simp: contiguous_node_iff)
  with c have "0 \<in> set (nodes g)" by (simp add: contiguous_node_iff)
  with g have ecc: "eccentricity g 0 = Inl DisconnectedGraphError"
    using d by (rule eccentricity_disconnected)
  from n have range: "[0..<number_of_nodes g] = 0 # [1..<number_of_nodes g]"
    by (simp add: upt_conv_Cons)
  have loop: "for_each
                  (\<lambda>node. case eccentricity g node of
                             Inl e \<Rightarrow> Inl e
                           | Inr d \<Rightarrow> Inr (real d))
                  [0..<number_of_nodes g] = Inl DisconnectedGraphError"
    by (simp only: range for_each.simps ecc sum.case)
  from log_degree_ok [OF c] obtain log_degree where "for_each
             (\<lambda>node. case degree_call g node of
                        Inl e \<Rightarrow> Inl e
                      | Inr d \<Rightarrow> Inr (ln (real (d + 1))))
             [0..<number_of_nodes g] = Inr log_degree" ..
  with loop show ?thesis by (simp add: create_node_feature_matrix_def)
qed

lemma accepted_iff:
  assumes g: "nx_graph g" and c: "contiguous g"
  shows "(\<exists>F. calculate_geoscattering self g = Inr F) \<longleftrightarrow>
         g \<noteq> [] \<and> (\<forall>v\<in>set (nodes g). degree_lookup g v \<noteq> Inr 0) \<and> is_connected g"
proof
  assume "\<exists>F. calculate_geoscattering self g = Inr F"
  then obtain A_hat X where A: "get_normalized_adjacency g = Inr A_hat"
    and X: "create_node_feature_matrix g = Inr X"
    by (auto simp: calculate_geoscattering_def Let_def on_success_eq_Inr)
  from A have "g \<noteq> []"
    by (auto simp: get_normalized_adjacency_def adjacency_matrix_def number_of_nodes_def)
  moreover have "\<forall>v\<in>set (nodes g). degree_lookup g v \<noteq> Inr 0"
  proof (rule ccontr)
    assume "\<not> (\<forall>v\<in>set (nodes g). degree_lookup g v \<noteq> Inr 0)"
    then have "\<exists>v\<in>set (nodes g). degree_lookup g v = Inr 0" by blast
    from create_D_inverse_degree_zero [OF c this] A show False
      by (auto simp: get_normalized_adjacency_def split: sum.splits)
  qed
  moreover have "is_connected g"
  proof (rule ccontr)
    assume "\<not> is_connected g"
    from node_features_disconnected [OF g c this] X show False by simp
  qed
  ultimately show "g \<noteq> [] \<and> (\<forall>v\<in>set (nodes g). degree_lookup g v \<noteq> Inr 0) \<and> is_connected g"
    by blast
next
  assume a: "g \<noteq> [] \<and> (\<forall>v\<in>set (nodes g). degree_lookup g v \<noteq> Inr 0) \<and> is_connected g"
  then have ne: "g \<noteq> []" and d: "\<forall>v\<in>set (nodes g). degree_lookup g v \<noteq> Inr 0"
    and conn: "is_connected g" by blast+
  from create_D_inverse_ok [OF c d] obtain D where "create_D_inverse g = Inr D" ..
  with adjacency_matrix_contiguous [OF c ne]
  obtain A_hat where A: "get_normalized_adjacency g = Inr A_hat"
    by (simp add: get_normalized_adjacency_def)
  from node_features_ok [OF g c conn] obtain X where X: "create_node_feature_matrix g = Inr X" ..
  from A X show "\<exists>F. calculate_geoscattering self g = Inr F" by (rule geoscattering_accepts)
qed

subsection \<open>The wavelet bank in element-wise powers\<close>

lemma calculate_wavelets_elementwise:
  "calculate_wavelets self A
     = map (\<lambda>k. map (map (\<lambda>a. a ^ 2 ^ k - a ^ 2 ^ (k + 1))) A) [0..<nat (order self + 1)]"
proof -
  have "py_range 0 (order self + 1) = map int [0..<nat (order self + 1)]"
    using py_range_from_nat [of 0 "order self + 1"] by simp
  then show ?thesis
    by (simp add: calculate_wavelets_def elementwise_difference comp_def nat_add_distrib)
qed

lemma matrix_sum_snoc: "Ms \<noteq> [] \<Longrightarrow> matrix_sum (Ms @ [M]) = sp_add (matrix_sum Ms) M"
  by (cases Ms) simp_all

lemma sp_add_elementwise:
  "sp_add (map (map f) A) (map (map g) A) = map (map (\<lambda>a. f a + g a)) A"
  by (simp add: sp_add_def map2_map_map)

lemma elementwise_partial_sums:
  "matrix_sum (map (\<lambda>k. map (map (\<lambda>a. a ^ 2 ^ k - a ^ 2 ^ (k + 1))) A) [0..<Suc n])
     = map (map (\<lambda>a. a - a ^ 2 ^ (n + 1))) (A :: matrix)"
proof (induction n)
  case 0
  show ?case by simp
next
  case (Suc n)
  let ?W = "\<lambda>k. map (map (\<lambda>a. a ^ 2 ^ k - a ^ 2 ^ (k + 1))) A"
  have "matrix_sum (map ?W [0..<Suc (Suc n)]) = matrix_sum (map ?W [0..<Suc n] @ [?W (Suc n)])"
    by simp
  also have "\<dots> = sp_add (matrix_sum (map ?W [0..<Suc n])) (?W (Suc n))"
    by (rule matrix_sum_snoc) simp
  also have "\<dots> = sp_add (map (map (\<lambda>a. a - a ^ 2 ^ (n + 1))) A) (?W (Suc n))"
    by (simp only: Suc.IH)
  also have "\<dots> = map (map (\<lambda>a. (a - a ^ 2 ^ (n + 1)) + (a ^ 2 ^ Suc n - a ^ 2 ^ (Suc n + 1)))) A"
    by (rule sp_add_elementwise)
  also have "\<dots> = map (map (\<lambda>a. a - a ^ 2 ^ (Suc n + 1))) A"
    by simp
  finally show ?case .
qed

lemma elementwise_telescoping:
  assumes "0 \<le> order self"
  shows "matrix_sum (calculate_wavelets self A)
           = sp_sub (sp_power A 1) (sp_power A (2 ^ (nat (order self) + 1)))"
proof -
  from assms have "nat (order self + 1) = Suc (nat (order self))" by simp
  then have "matrix_sum (calculate_wavelets self A)
      = map (map (\<lambda>a. a - a ^ 2 ^ (nat (order self) + 1))) A"
    by (simp only: calculate_wavelets_elementwise elementwise_partial_sums)
  also have "\<dots> = sp_sub (sp_power A 1) (sp_power A (2 ^ (nat (order self) + 1)))"
    by (simp add: elementwise_difference)
  finally show ?thesis .
qed

subsection \<open>Accepted graphs and the length of their feature vector\<close>

lemma cycle4_connected: "is_connected cycle4"
proof (rule all_reached_connected [OF cycle4_graph(1), of 0])
  have e01: "(0, 1) \<in> edge_relation cycle4" and e12: "(1, 2) \<in> edge_relation cycle4"
    and e03: "(0, 3) \<in> edge_relation cycle4"
    by (simp_all add: edge_relation_def nodes_def neighbors_def cycle4_def)
  have "(0, 0) \<in> (edge_relation cycle4)\<^sup>*" by simp
  moreover from e01 have r1: "(0, 1) \<in> (edge_relation cycle4)\<^sup>*" by (rule r_into_rtrancl)
  moreover from r1 e12 have "(0, 2) \<in> (edge_relation cycle4)\<^sup>*" by (rule rtrancl_into_rtrancl)
  moreover from e03 have "(0, 3) \<in> (edge_relation cycle4)\<^sup>*" by (rule r_into_rtrancl)
  ultimately show "set (nodes cycle4) \<subseteq> reached cycle4 0"
    by (simp add: reached_def nodes_def cycle4_def)
qed

text \<open>
  Claim C4, as the source has it. For an undirected graph with node labels \<open>0..n-1\<close>
  the pipeline accepts the graph (returns a feature vector for it) if and only if the
  graph has a node, every node has a degree of at least one, and the graph is connected.
  Whenever the pipeline accepts a graph, the vector is a single row whose length depends
  on \<open>order\<close> and \<open>moments\<close> only, not on the number of nodes:
  \<open>3 * O + 3 * (O + 1) * (M - 1) + 3 * (O * (O - 1) / 2) * (M - 1)\<close> for
  \<open>O = order \<ge> 0\<close> and \<open>M = moments \<ge> 1\<close>. In general each of the factors \<open>O\<close>,
  \<open>O + 1\<close> and \<open>M - 1\<close> counts the elements of a range and is zero where the formula
  would be negative.
\<close>

theorem feature_vector_length:
  "(nx_graph g \<and> contiguous g \<longrightarrow>
      ((\<exists>F. calculate_geoscattering self g = Inr F) \<longleftrightarrow>
       g \<noteq> [] \<and> (\<forall>v\<in>set (nodes g). degree_lookup g v \<noteq> Inr 0) \<and> is_connected g)) \<and>
   (\<forall>F. calculate_geoscattering self g = Inr F \<longrightarrow>
      shape F = [1, length (scalars F)] \<and>
      length (scalars F)
        = 3 * nat (order self) + 3 * (nat (order self + 1) * nat (moments self - 1))
          + 3 * (nat (order self) * (nat (order self) - 1) div 2 * nat (moments self - 1)) \<and>
      (0 \<le> order self \<and> 1 \<le> moments self \<longrightarrow>
         int (length (scalars F))
           = 3 * order self + 3 * (order self + 1) * (moments self - 1)
             + 3 * (order self * (order self - 1) div 2) * (moments self - 1)))"
proof -
  have acc: "nx_graph g \<and> contiguous g \<longrightarrow>
      ((\<exists>F. calculate_geoscattering self g = Inr F) \<longleftrightarrow>
       g \<noteq> [] \<and> (\<forall>v\<in>set (nodes g). degree_lookup g v \<noteq> Inr 0) \<and> is_connected g)"
    using accepted_iff [of g self] by blast
  have len: "shape F = [1, length (scalars F)] \<and>
      length (scalars F)
        = 3 * nat (order self) + 3 * (nat (order self + 1) * nat (moments self - 1))
          + 3 * (nat (order self) * (nat (order self) - 1) div 2 * nat (moments self - 1)) \<and>
      (0 \<le> order self \<and> 1 \<le> moments self \<longrightarrow>
         int (length (scalars F))
           = 3 * order self + 3 * (order self + 1) * (moments self - 1)
             + 3 * (order self * (order self - 1) div 2) * (moments self - 1))"
    if F: "calculate_geoscattering self g = Inr F" for F
  proof -
    from calculate_geoscattering_parts [OF F] obtain zs fs ss
      where F': "F = reshape_row (zs @ fs @ ss)"
        and l: "length zs = 3 * nat (order self)"
          "length fs = 3 * (nat (order self + 1) * nat (moments self - 1))"
          "length ss = 3 * (nat (order self) * (nat (order self) - 1) div 2
                               * nat (moments self - 1))"
      by blast
    have len: "length (scalars F)
        = 3 * nat (order self) + 3 * (nat (order self + 1) * nat (moments self - 1))
          + 3 * (nat (order self) * (nat (order self) - 1) div 2 * nat (moments self - 1))"
      by (simp add: F' l)
    have sh: "shape F = [1, length (scalars F)]" by (simp add: F')
    have "0 \<le> order self \<and> 1 \<le> moments self \<longrightarrow>
        int (length (scalars F))
          = 3 * order self + 3 * (order self + 1) * (moments self - 1)
            + 3 * (order self * (order self - 1) div 2) * (moments self - 1)"
      unfolding len using feature_count_int [of "order self" "moments self"] by blast
    with sh len show ?thesis by blast
  qed
  from acc len show ?thesis by blast
qed

theorem feature_vector_length_witness:
  "\<exists>F. calculate_geoscattering (init 4 4) cycle4 = Inr F \<and> shape F = [1, 111] \<and>
       int (length (scalars F)) = 3 * 4 + 3 * (4 + 1) * (4 - 1) + 3 * (4 * (4 - 1) div 2) * (4 - 1)"
proof -
  note inst = feature_vector_length [of cycle4 "init 4 4"]
  have "cycle4 \<noteq> []" by (simp add: cycle4_def)
  moreover have "\<forall>v\<in>set (nodes cycle4). degree_lookup cycle4 v \<noteq> Inr 0"
    by (simp add: nodes_def degree_lookup_def cycle4_def)
  ultimately have "\<exists>F. calculate_geoscattering (init 4 4) cycle4 = Inr F"
    using inst [THEN conjunct1] cycle4_graph(1) contiguous_examples(2) cycle4_connected
    by blast
  then obtain F where F: "calculate_geoscattering (init 4 4) cycle4 = Inr F" ..
  from inst [THEN conjunct2, THEN spec, THEN mp, OF F]
  have "shape F = [1, length (scalars F)]"
    and "int (length (scalars F))
           = 3 * order (init 4 4) + 3 * (order (init 4 4) + 1) * (moments (init 4 4) - 1)
             + 3 * (order (init 4 4) * (order (init 4 4) - 1) div 2) * (moments (init 4 4) - 1)"
    by (simp_all add: init_def)
  then have "shape F = [1, 111]"
    and "int (length (scalars F)) = 3 * 4 + 3 * (4 + 1) * (4 - 1) + 3 * (4 * (4 - 1) div 2) * (4 - 1)"
    by (simp_all add: init_def)
  with F show ?thesis by blast
qed

end
